theory Spec2Isabelle
  imports Complex_Main "HOL-Library.Word"
begin

section \<open>JavaScript numbers, strings and sets\<close>

text \<open>
  The tile prefetcher (\<^verbatim>\<open>src/prefetch.js\<close>, class \<^verbatim>\<open>TilePrefetcher\<close>) computes with
  integral JavaScript numbers far below \<open>2^53\<close>: tile indices, zoom levels and
  counts. They are modelled as \<open>int\<close>. The floating-point conversions
  \<^verbatim>\<open>_lon2tile\<close> and \<^verbatim>\<open>_lat2tile\<close> are not modelled: the model starts from their
  floored results, which are arbitrary (finite) integers.
\<close>

text \<open>
  The remainder operator \<^verbatim>\<open>a % b\<close> of JavaScript truncates: the result has the sign
  of the dividend. (\<^verbatim>\<open>b = 0\<close> gives \<^verbatim>\<open>NaN\<close> in JavaScript; every divisor below is
  \<open>2 ^ z > 0\<close>.)
\<close>

definition js_rem :: "int \<Rightarrow> int \<Rightarrow> int" where
  "js_rem a b = sgn a * (\<bar>a\<bar> mod \<bar>b\<bar>)"

text \<open>\<^verbatim>\<open>v | 0\<close>: conversion to a signed 32-bit integer (ToInt32), wrapping modulo \<open>2^32\<close>.\<close>

definition js_toInt32 :: "int \<Rightarrow> int" where
  "js_toInt32 v = sint (word_of_int v :: 32 word)"

text \<open>
  \<^verbatim>\<open>arr.slice(0, e)\<close> for an integral \<open>e\<close>: a negative end counts from the end of
  the array.
\<close>

definition js_slice0 :: "'a list \<Rightarrow> int \<Rightarrow> 'a list" where
  "js_slice0 xs e =
     (if e < 0 then take (nat (int (length xs) + e)) xs else take (nat e) xs)"

text \<open>
  A JavaScript \<^verbatim>\<open>Set\<close> iterates in insertion order and ignores the insertion of a
  member: a list without duplicates, extended at the end.
\<close>

definition set_add :: "'a \<Rightarrow> 'a list \<Rightarrow> 'a list" where
  "set_add v s = (if v \<in> set s then s else s @ [v])"

text \<open>The decimal rendering of an integral number, as string interpolation produces it.\<close>

definition digit_char :: "nat \<Rightarrow> char" where
  "digit_char d = ''0123456789'' ! d"

fun show_nat :: "nat \<Rightarrow> string" where
  "show_nat n = (if n < 10 then [digit_char n] else show_nat (n div 10) @ [digit_char (n mod 10)])"

declare show_nat.simps [simp del]

definition num_str :: "int \<Rightarrow> string" where
  "num_str i = (if i < 0 then CHR ''-'' # show_nat (nat (- i)) else show_nat (nat i))"

text \<open>\<^verbatim>\<open>s.includes(pat)\<close> and \<^verbatim>\<open>s.replace(pat, rep)\<close> (first occurrence only).\<close>

fun str_includes :: "string \<Rightarrow> string \<Rightarrow> bool" where
  "str_includes [] pat = (pat = [])"
| "str_includes (c # cs) pat = (take (length pat) (c # cs) = pat \<or> str_includes cs pat)"

fun str_replace :: "string \<Rightarrow> string \<Rightarrow> string \<Rightarrow> string" where
  "str_replace [] pat rep = (if pat = [] then rep else [])"
| "str_replace (c # cs) pat rep =
     (if take (length pat) (c # cs) = pat then rep @ drop (length pat) (c # cs)
      else c # str_replace cs pat rep)"

section \<open>Coordinate math and the tile-set builder\<close>

text \<open>
  \<^verbatim>\<open>const t = 2 ** z, wrapX = (x)=>((x%t)+t)%t, clampY=(y)=>Math.max(0,Math.min(t-1,y));\<close>
  the two local functions of \<^verbatim>\<open>_collectNeighborsTiles\<close> and \<^verbatim>\<open>_visibleTileRange\<close>,
  with \<open>t\<close> as a parameter.
\<close>

definition wrapX :: "int \<Rightarrow> int \<Rightarrow> int" where
  "wrapX t x = js_rem (js_rem x t + t) t"

definition clampY :: "int \<Rightarrow> int \<Rightarrow> int" where
  "clampY t y = max 0 (min (t - 1) y)"

record tile =
  tile_x :: int
  tile_y :: int

record ztile =
  zt_x :: int
  zt_y :: int
  zt_z :: nat

text \<open>The local constant \<^verbatim>\<open>inside\<close> of \<^verbatim>\<open>_collectNeighborsTiles\<close>.\<close>

definition inside :: "int \<Rightarrow> int \<Rightarrow> int \<Rightarrow> int \<Rightarrow> int \<Rightarrow> int \<Rightarrow> bool" where
  "inside minX minY maxX maxY x y \<longleftrightarrow> x \<ge> minX \<and> x \<le> maxX \<and> y \<ge> minY \<and> y \<le> maxY"

text \<open>
  \<^verbatim>\<open>_collectNeighborsTiles(z, minX, minY, maxX, maxY, n)\<close>: the two nested
  \<^verbatim>\<open>for\<close> loops run over the integer ranges \<open>[minX - n .. maxX + n]\<close> and
  \<open>[minY - n .. maxY + n]\<close>; \<^verbatim>\<open>continue\<close> skips an index, \<^verbatim>\<open>out.push\<close> appends.
\<close>

definition collectNeighborsTiles :: "nat \<Rightarrow> int \<Rightarrow> int \<Rightarrow> int \<Rightarrow> int \<Rightarrow> int \<Rightarrow> tile list" where
  "collectNeighborsTiles z minX minY maxX maxY n =
     (let t = 2 ^ z in
      concat (map (\<lambda>x.
        concat (map (\<lambda>y.
          if inside minX minY maxX maxY x y then []
          else [\<lparr>tile_x = wrapX t x, tile_y = clampY t y\<rparr>])
        [minY - n .. maxY + n]))
      [minX - n .. maxX + n]))"

text \<open>
  \<^verbatim>\<open>_visibleTileRange(bounds, z)\<close>. The four parameters \<open>vxMinX\<close>, \<open>vxMaxX\<close>,
  \<open>vyMinY\<close>, \<open>vyMaxY\<close> are the source's constants of these names: the floors of
  the tile coordinates of the west, east, north and south edge of the bounds.
\<close>

record tile_range =
  range_minX :: int
  range_maxX :: int
  range_minY :: int
  range_maxY :: int
  tilesAtZ :: "ztile list"

definition visibleTileRange :: "int \<Rightarrow> int \<Rightarrow> int \<Rightarrow> int \<Rightarrow> nat \<Rightarrow> tile_range" where
  "visibleTileRange vxMinX vxMaxX vyMinY vyMaxY z =
     (let t = 2 ^ z in
      \<lparr>range_minX = vxMinX, range_maxX = vxMaxX, range_minY = vyMinY, range_maxY = vyMaxY,
       tilesAtZ =
         concat (map (\<lambda>x. map (\<lambda>y. \<lparr>zt_x = wrapX t x, zt_y = clampY t y, zt_z = z\<rparr>)
           [vyMinY .. vyMaxY]) [vxMinX .. vxMaxX])\<rparr>)"

text \<open>
  \<^verbatim>\<open>for (let k=0;k<d;k++){ px = Math.floor(px/2); py = Math.floor(py/2); }\<close>
  on one axis: \<open>d\<close> successive halvings. \<^verbatim>\<open>Math.floor(px/2)\<close> of an integral \<open>px\<close>
  is \<open>px div 2\<close> (HOL's \<open>div\<close> on \<open>int\<close> rounds down).
\<close>

fun halve :: "nat \<Rightarrow> int \<Rightarrow> int" where
  "halve 0 px = px"
| "halve (Suc k) px = halve k (px div 2)"

text \<open>
  \<^verbatim>\<open>_tileURL(tmpl, z, x, y)\<close>: \<^verbatim>\<open>null\<close> (here \<open>None\<close>) when a placeholder is
  missing.
\<close>

definition tileURL :: "string \<Rightarrow> int \<Rightarrow> int \<Rightarrow> int \<Rightarrow> string option" where
  "tileURL tmpl z x y =
     (if \<not> str_includes tmpl ''{z}'' \<or> \<not> str_includes tmpl ''{x}'' \<or> \<not> str_includes tmpl ''{y}''
      then None
      else Some (str_replace (str_replace (str_replace tmpl ''{z}'' (num_str z))
                   ''{x}'' (num_str x)) ''{y}'' (num_str y)))"

section \<open>The prefetcher's state and its collaborators\<close>

text \<open>
  A JavaScript value met in a template list: a string, or anything else (which
  \<^verbatim>\<open>templates.filter(u => typeof u === 'string')\<close> drops).
\<close>

datatype jsval = JString string | JOther

text \<open>
  A style source, as \<^verbatim>\<open>_resolveTemplates\<close> reads it: \<open>src_tiles\<close> is \<open>Some a\<close> when
  \<^verbatim>\<open>Array.isArray(src.tiles)\<close>, \<open>src_url\<close> is \<open>Some u\<close> when
  \<^verbatim>\<open>typeof src.url === 'string'\<close>.
\<close>

record source =
  src_tiles :: "jsval list option"
  src_url :: "string option"

text \<open>
  What \<^verbatim>\<open>fetch(url)\<close> of a TileJSON document comes to: the promise rejects, or a
  response arrives with its \<^verbatim>\<open>ok\<close> flag, its status and the outcome of
  \<^verbatim>\<open>res.json()\<close> (\<open>None\<close> when the body does not parse). A parsed document is
  \<^verbatim>\<open>null\<close>, or a value whose \<^verbatim>\<open>tiles\<close> property is an array (\<open>Some a\<close>) or not.
\<close>

datatype tilejson = JsonNull | JsonValue "jsval list option"

datatype http_result = Rejected | Response bool nat "tilejson option"

datatype fetch_error = NetworkError | HttpError nat | JsonError | TypeError

text \<open>\<^verbatim>\<open>_fetchTileJSON(url)\<close>: throws on a response that is not ok.\<close>

definition fetchTileJSON :: "(string \<Rightarrow> http_result) \<Rightarrow> string \<Rightarrow> fetch_error + tilejson" where
  "fetchTileJSON net url =
     (case net url of
        Rejected \<Rightarrow> Inl NetworkError
      | Response ok status body \<Rightarrow>
          if \<not> ok then Inl (HttpError status)
          else (case body of None \<Rightarrow> Inl JsonError | Some tj \<Rightarrow> Inr tj))"

text \<open>
  The fields of a \<^verbatim>\<open>TilePrefetcher\<close>. \<open>debounceTimer\<close> is \<open>True\<close> while a timeout set
  by \<^verbatim>\<open>_onMoveEnd\<close> is pending; \<open>moveendBound\<close> and \<open>styledataBound\<close> say whether the
  map still holds the two listeners. \<open>styledataGuard\<close> is the field
  \<^verbatim>\<open>_styledataGuard\<close>. The data of the debug overlay is left out: it is written and
  never read by the scheduling code.
\<close>

record prefetcher =
  debounceTimer :: bool
  inflight :: "string set"
  tilejsonCache :: "string \<rightharpoonup> jsval list"
  templates :: "string list"
  styledataGuard :: bool
  moveendBound :: bool
  styledataBound :: bool

text \<open>The options that the scheduling code reads (\<^verbatim>\<open>this.opts\<close>).\<close>

record opts =
  neighbors :: int
  zoomOutLevels :: int
  maxRequestsPerMove :: int
  shouldPrefetch :: "string \<Rightarrow> bool"

text \<open>
  What the map and the network answer during one call: the entries of
  \<^verbatim>\<open>getStyle().sources\<close> (\<open>None\<close> when there is no style or it has no sources), the
  identifiers of \<^verbatim>\<open>getStyle().layers || []\<close> from the bottom to the top as the call
  finds them, the floor of \<^verbatim>\<open>getZoom()\<close>, the floored tile coordinates of the four
  edges of \<^verbatim>\<open>getBounds()\<close>, and the outcome of each TileJSON request.
\<close>

record mapenv =
  getStyle :: "(string \<times> source) list option"
  styleLayers :: "string list"
  getZoom :: int
  westX :: int
  eastX :: int
  northY :: int
  southY :: int
  net :: "string \<Rightarrow> http_result"

section \<open>The template resolver\<close>

text \<open>
  One iteration of the loop over \<^verbatim>\<open>Object.entries(style.sources)\<close> in
  \<^verbatim>\<open>_resolveTemplates\<close>, on the local array \<open>tmpls\<close>, the cache and the log of the
  remote lookups made so far (source identifier and address).
\<close>

type_synonym resolve_acc = "jsval list \<times> (string \<rightharpoonup> jsval list) \<times> (string \<times> string) list"

definition resolve_source :: "(string \<Rightarrow> http_result) \<Rightarrow> string \<Rightarrow> source \<Rightarrow> resolve_acc \<Rightarrow> resolve_acc" where
  "resolve_source nt sid src acc =
     (case acc of (tmpls, cache, lookups) \<Rightarrow>
       (case src_tiles src of
          Some (v # vs) \<Rightarrow> (tmpls @ (v # vs), cache, lookups)
        | _ \<Rightarrow>
          (case src_url src of
             None \<Rightarrow> acc
           | Some url \<Rightarrow>
               if url = [] then acc
               else (case cache sid of
                  Some tiles \<Rightarrow> (tmpls @ tiles, cache, lookups)
                | None \<Rightarrow>
                   (case fetchTileJSON nt url of
                      Inr (JsonValue tj_tiles) \<Rightarrow>
                        (let t = (case tj_tiles of Some a \<Rightarrow> a | None \<Rightarrow> [])
                         in (tmpls @ t, cache(sid \<mapsto> t), lookups @ [(sid, url)]))
                    | Inr JsonNull \<Rightarrow> (tmpls, cache, lookups @ [(sid, url)])
                    | Inl e \<Rightarrow> (tmpls, cache, lookups @ [(sid, url)]))))))"

fun resolve_loop :: "(string \<Rightarrow> http_result) \<Rightarrow> (string \<times> source) list \<Rightarrow> resolve_acc \<Rightarrow> resolve_acc" where
  "resolve_loop nt [] acc = acc"
| "resolve_loop nt ((sid, src) # rest) acc = resolve_loop nt rest (resolve_source nt sid src acc)"

fun string_entries :: "jsval list \<Rightarrow> string list" where
  "string_entries [] = []"
| "string_entries (JString u # vs) = u # string_entries vs"
| "string_entries (JOther # vs) = string_entries vs"

text \<open>
  \<^verbatim>\<open>_resolveTemplates()\<close>, run without interruption: it returns the lookups it made
  and the new state.
\<close>

definition resolveTemplates :: "mapenv \<Rightarrow> prefetcher \<Rightarrow> (string \<times> string) list \<times> prefetcher" where
  "resolveTemplates env st =
     (case getStyle env of
        None \<Rightarrow> ([], st)
      | Some sources \<Rightarrow>
          (case resolve_loop (net env) sources ([], tilejsonCache st, []) of
             (tmpls, cache, lookups) \<Rightarrow>
               (lookups, st\<lparr>tilejsonCache := cache, templates := string_entries tmpls\<rparr>)))"

section \<open>The prefetch cycle\<close>

text \<open>
  The keys \<^verbatim>\<open>`${z}/${x}/${y}`\<close> of \<^verbatim>\<open>neighborSet\<close>, \<^verbatim>\<open>parentSet\<close> and \<^verbatim>\<open>tmp\<close> are
  kept as the triples they render; \<^verbatim>\<open>key.split('/')\<close> followed by unary \<^verbatim>\<open>+\<close>
  reads the three numbers back.
\<close>

type_synonym tile_key = "int \<times> int \<times> int"

text \<open>
  \<^verbatim>\<open>for (const tmpl of this._templates) { const u = this._tileURL(tmpl, z, x, y);
  if (u) urls.add(u); }\<close>
\<close>

definition add_tile_urls :: "string list \<Rightarrow> int \<Rightarrow> int \<Rightarrow> int \<Rightarrow> string list \<Rightarrow> string list" where
  "add_tile_urls tmpls z x y urls =
     foldl (\<lambda>us tmpl. case tileURL tmpl z x y of
                         None \<Rightarrow> us
                       | Some u \<Rightarrow> if u = [] then us else set_add u us) urls tmpls"

definition add_neighbor :: "string list \<Rightarrow> int \<Rightarrow> tile_key list \<times> string list \<Rightarrow> tile \<Rightarrow> tile_key list \<times> string list" where
  "add_neighbor tmpls z acc p =
     (case acc of (neighborSet, urls) \<Rightarrow>
        (set_add (z, tile_x p, tile_y p) neighborSet,
         add_tile_urls tmpls z (tile_x p) (tile_y p) urls))"

text \<open>The block \<^verbatim>\<open>if (this.opts.neighbors > 0) { ... }\<close> of \<^verbatim>\<open>_prefetchNow\<close>.\<close>

definition neighbors_block :: "opts \<Rightarrow> string list \<Rightarrow> nat \<Rightarrow> tile_range \<Rightarrow> tile_key list \<times> string list" where
  "neighbors_block ops tmpls z r =
     (if neighbors ops > 0
      then foldl (add_neighbor tmpls (int z)) ([], [])
             (collectNeighborsTiles z (range_minX r) (range_minY r) (range_maxX r) (range_maxY r)
                (neighbors ops))
      else ([], []))"

text \<open>The set \<^verbatim>\<open>tmp\<close> built for one depth \<open>d\<close> from \<^verbatim>\<open>tilesAtZ\<close>.\<close>

definition parent_keys :: "int \<Rightarrow> nat \<Rightarrow> ztile list \<Rightarrow> tile_key list" where
  "parent_keys pz d tiles =
     foldl (\<lambda>tmp t. set_add (pz, halve d (zt_x t), halve d (zt_y t)) tmp) [] tiles"

definition add_parent :: "string list \<Rightarrow> tile_key list \<times> string list \<Rightarrow> tile_key \<Rightarrow> tile_key list \<times> string list" where
  "add_parent tmpls acc k =
     (case acc of (parentSet, urls) \<Rightarrow>
        (case k of (kz, kx, ky) \<Rightarrow> (set_add k parentSet, add_tile_urls tmpls kz kx ky urls)))"

text \<open>The body of the loop over the depths, after the \<^verbatim>\<open>break\<close> test.\<close>

definition parents_body :: "string list \<Rightarrow> ztile list \<Rightarrow> int \<Rightarrow> int \<Rightarrow> tile_key list \<times> string list \<Rightarrow> tile_key list \<times> string list" where
  "parents_body tmpls tiles z d acc = foldl (add_parent tmpls) acc (parent_keys (z - d) (nat d) tiles)"

text \<open>
  \<^verbatim>\<open>for (let d = 1; d <= levels; d++) { const pz = z - d; if (pz < 0) break; ... }\<close>
  from the depth \<open>d\<close> on.
\<close>

function parents_loop :: "string list \<Rightarrow> ztile list \<Rightarrow> int \<Rightarrow> int \<Rightarrow> int \<Rightarrow> tile_key list \<times> string list \<Rightarrow> tile_key list \<times> string list" where
  "parents_loop tmpls tiles z levels d acc =
     (if d \<le> levels
      then (let pz = z - d in
            if pz < 0 then acc
            else parents_loop tmpls tiles z levels (d + 1) (parents_body tmpls tiles z d acc))
      else acc)"
  by pat_completeness auto
termination
  by (relation "measure (\<lambda>(tmpls, tiles, z, levels, d, acc). nat (levels + 1 - d))") auto

declare parents_loop.simps [simp del]

text \<open>
  The tile sets and the URL set of one cycle: \<^verbatim>\<open>_prefetchNow\<close> from the clamping of
  the zoom to the end of the loop over the depths. The result is
  \<open>(neighborSet, parentSet, urls)\<close>.
\<close>

definition tile_sets :: "opts \<Rightarrow> mapenv \<Rightarrow> string list \<Rightarrow> tile_key list \<times> tile_key list \<times> string list" where
  "tile_sets ops env tmpls =
     (let z = nat (max 0 (min 22 (getZoom env)));
          r = visibleTileRange (westX env) (eastX env) (northY env) (southY env) z;
          nb = neighbors_block ops tmpls z r;
          levels = max 0 (js_toInt32 (zoomOutLevels ops));
          pr = parents_loop tmpls (tilesAtZ r) (int z) levels 1 ([], snd nb)
      in (fst nb, fst pr, snd pr))"

text \<open>
  \<^verbatim>\<open>const list = [...urls].filter(this.opts.shouldPrefetch).slice(0,
  this.opts.maxRequestsPerMove);\<close>
\<close>

definition prefetch_list :: "opts \<Rightarrow> mapenv \<Rightarrow> string list \<Rightarrow> string list" where
  "prefetch_list ops env tmpls =
     js_slice0 (filter (shouldPrefetch ops) (snd (snd (tile_sets ops env tmpls))))
       (maxRequestsPerMove ops)"

text \<open>
  \<^verbatim>\<open>for (const u of list) { if (this._inflight.has(u)) continue;
  this._inflight.add(u); fetch(u)...; }\<close>: the fetches issued, in order, and the
  in-flight set after the loop.
\<close>

fun issue_fetches :: "string list \<Rightarrow> string set \<Rightarrow> string list \<times> string set" where
  "issue_fetches [] infl = ([], infl)"
| "issue_fetches (u # us) infl =
     (if u \<in> infl then issue_fetches us infl
      else (case issue_fetches us (insert u infl) of (fs, infl') \<Rightarrow> (u # fs, infl')))"

text \<open>
  The result of one run of \<^verbatim>\<open>_prefetchNow\<close>: the TileJSON lookups made, the tile
  fetches issued (both in order) and the state it leaves. The run is modelled without
  interruption: the only \<^verbatim>\<open>await\<close> of the function is the one of
  \<^verbatim>\<open>_resolveTemplates()\<close>, and everything after it is synchronous in the source.
\<close>

record cycle =
  lookups :: "(string \<times> string) list"
  fetches :: "string list"
  after :: prefetcher

definition prefetchNow :: "opts \<Rightarrow> mapenv \<Rightarrow> prefetcher \<Rightarrow> cycle" where
  "prefetchNow ops env st0 =
     (let res = (if templates st0 = [] then resolveTemplates env st0 else ([], st0));
          st = snd res
      in if templates st = [] then \<lparr>lookups = fst res, fetches = [], after = st\<rparr>
         else (case issue_fetches (prefetch_list ops env (templates st)) (inflight st) of
                 (fs, infl) \<Rightarrow> \<lparr>lookups = fst res, fetches = fs, after = st\<lparr>inflight := infl\<rparr>\<rparr>))"

section \<open>Events\<close>

text \<open>
  \<^verbatim>\<open>fetch(u).catch(()=>{}).finally(()=>this._inflight.delete(u))\<close>: what happens
  when the fetch of \<open>u\<close> settles, fulfilled (\<open>True\<close>) or rejected (\<open>False\<close>).
\<close>

definition fetch_settled :: "bool \<Rightarrow> string \<Rightarrow> prefetcher \<Rightarrow> prefetcher" where
  "fetch_settled fulfilled u st =
     (if fulfilled then st\<lparr>inflight := inflight st - {u}\<rparr>
      else st\<lparr>inflight := inflight st - {u}\<rparr>)"

text \<open>
  \<^verbatim>\<open>_onMoveEnd()\<close>: \<^verbatim>\<open>clearTimeout\<close> drops a pending timeout, \<^verbatim>\<open>setTimeout\<close>
  sets a new one.
\<close>

definition onMoveEnd :: "prefetcher \<Rightarrow> prefetcher" where
  "onMoveEnd st = (st\<lparr>debounceTimer := False\<rparr>)\<lparr>debounceTimer := True\<rparr>"

definition destroy :: "prefetcher \<Rightarrow> prefetcher" where
  "destroy st =
     st\<lparr>moveendBound := False, styledataBound := False, inflight := {},
        tilejsonCache := Map.empty, templates := []\<rparr>"

text \<open>The fields as the constructor sets them, before \<^verbatim>\<open>_bind\<close>.\<close>

definition constructed :: prefetcher where
  "constructed =
     \<lparr>debounceTimer = False, inflight = {}, tilejsonCache = Map.empty, templates = [],
      styledataGuard = False, moveendBound = False, styledataBound = False\<rparr>"

text \<open>
  \<^verbatim>\<open>_ensureDebugLayers()\<close>, as far as it touches the prefetcher: the four debug layers
  are added where the map does not have them, then \<^verbatim>\<open>toTopIfNeeded\<close> runs for each
  of them on the layers the map has by then. The layers are a local value here: the
  stack that the call leaves on the map is the map's state, not the prefetcher's.
  (The two GeoJSON sources and the fill visibility do not touch the prefetcher.)
\<close>

text \<open>\<^verbatim>\<open>if (!m.getLayer(id)) m.addLayer({ id, ... })\<close>: a new layer goes on top.\<close>

definition addLayerIfMissing :: "string \<Rightarrow> string list \<Rightarrow> string list" where
  "addLayerIfMissing lid layers = (if lid \<in> set layers then layers else layers @ [lid])"

text \<open>\<^verbatim>\<open>arr.findIndex(p)\<close>: the first index whose element satisfies \<open>p\<close>, or \<open>-1\<close>.\<close>

fun findIndex :: "('a \<Rightarrow> bool) \<Rightarrow> 'a list \<Rightarrow> int" where
  "findIndex p [] = - 1"
| "findIndex p (x # xs) =
     (if p x then 0 else (let i = findIndex p xs in if i = - 1 then - 1 else i + 1))"

text \<open>\<^verbatim>\<open>m.moveLayer(id)\<close> without a second argument: the layer goes to the top.\<close>

definition moveLayer :: "string \<Rightarrow> string list \<Rightarrow> string list" where
  "moveLayer lid layers = filter (\<lambda>l. l \<noteq> lid) layers @ [lid]"

text \<open>
  The local function \<^verbatim>\<open>toTopIfNeeded\<close>, on the layers and the guard. The callback it
  hands to \<^verbatim>\<open>requestAnimationFrame\<close> is the event \<open>AnimationFrame\<close> below.
\<close>

definition toTopIfNeeded :: "string \<Rightarrow> string list \<times> bool \<Rightarrow> string list \<times> bool" where
  "toTopIfNeeded lid acc =
     (case acc of (layers, guard) \<Rightarrow>
        (let idx = findIndex (\<lambda>l. l = lid) layers in
         if idx = - 1 then acc
         else if idx = int (length layers) - 1 then acc
         else (moveLayer lid layers, True)))"

definition ensureDebugLayers :: "mapenv \<Rightarrow> prefetcher \<Rightarrow> prefetcher" where
  "ensureDebugLayers env st =
     (let layers =
            addLayerIfMissing ''prefetch-parents-line''
              (addLayerIfMissing ''prefetch-neighbors-line''
                (addLayerIfMissing ''prefetch-parents-fill''
                  (addLayerIfMissing ''prefetch-neighbors-fill'' (styleLayers env))));
          moved = foldl (\<lambda>acc lid. toTopIfNeeded lid acc) (layers, styledataGuard st)
            [''prefetch-neighbors-fill'', ''prefetch-neighbors-line'',
             ''prefetch-parents-fill'', ''prefetch-parents-line'']
      in st\<lparr>styledataGuard := snd moved\<rparr>)"

text \<open>
  \<^verbatim>\<open>_bind()\<close>: the debug layers are ensured, both listeners are registered, the
  templates are resolved, then \<^verbatim>\<open>_onMoveEnd\<close> is called.
\<close>

definition bind :: "mapenv \<Rightarrow> prefetcher \<Rightarrow> (string \<times> string) list \<times> prefetcher" where
  "bind env st =
     (case resolveTemplates env
             ((ensureDebugLayers env st)\<lparr>styledataBound := True, moveendBound := True\<rparr>) of
        (lk, st') \<Rightarrow> (lk, onMoveEnd st'))"

text \<open>
  \<^verbatim>\<open>_onStyleData()\<close>: nothing while the guard is set; otherwise the guard is set, the
  debug layers are ensured and the templates are resolved.
\<close>

definition onStyleData :: "mapenv \<Rightarrow> prefetcher \<Rightarrow> (string \<times> string) list \<times> prefetcher" where
  "onStyleData env st =
     (if styledataGuard st then ([], st)
      else resolveTemplates env (ensureDebugLayers env (st\<lparr>styledataGuard := True\<rparr>)))"

text \<open>
  What the browser and the map deliver to the prefetcher: a listener runs only while it
  is registered, the timeout's callback only while the timeout is pending, and an
  animation frame runs the callbacks that reset the guard.
\<close>

datatype event =
  MoveEnd | StyleData | AnimationFrame | TimerFired | FetchSettled string bool | Destroy

definition step :: "opts \<Rightarrow> mapenv \<Rightarrow> event \<Rightarrow> prefetcher \<Rightarrow> cycle" where
  "step ops env ev st =
     (case ev of
        MoveEnd \<Rightarrow>
          \<lparr>lookups = [], fetches = [], after = (if moveendBound st then onMoveEnd st else st)\<rparr>
      | StyleData \<Rightarrow>
          (if styledataBound st
           then (case onStyleData env st of (lk, st') \<Rightarrow> \<lparr>lookups = lk, fetches = [], after = st'\<rparr>)
           else \<lparr>lookups = [], fetches = [], after = st\<rparr>)
      | AnimationFrame \<Rightarrow> \<lparr>lookups = [], fetches = [], after = st\<lparr>styledataGuard := False\<rparr>\<rparr>
      | TimerFired \<Rightarrow>
          (if debounceTimer st then prefetchNow ops env (st\<lparr>debounceTimer := False\<rparr>)
           else \<lparr>lookups = [], fetches = [], after = st\<rparr>)
      | FetchSettled u fulfilled \<Rightarrow>
          \<lparr>lookups = [], fetches = [], after = fetch_settled fulfilled u st\<rparr>
      | Destroy \<Rightarrow> \<lparr>lookups = [], fetches = [], after = destroy st\<rparr>)"

section \<open>A small map\<close>

text \<open>
  A prefetcher with one ring, one parent level and at most three requests per move, on
  a map at zoom 1 that shows the tile \<open>(0, 0)\<close>. The style has two remote sources: the
  descriptor of \<open>a\<close> is unreachable, that of \<open>b\<close> answers with one template. The map
  has one layer of its own.
\<close>

definition demo_opts :: opts where
  "demo_opts =
     \<lparr>neighbors = 1, zoomOutLevels = 1, maxRequestsPerMove = 3, shouldPrefetch = (\<lambda>u. True)\<rparr>"

definition demo_env :: mapenv where
  "demo_env =
     \<lparr>getStyle = Some [(''a'', \<lparr>src_tiles = None, src_url = Some ''a.json''\<rparr>),
                       (''b'', \<lparr>src_tiles = None, src_url = Some ''b.json''\<rparr>)],
      styleLayers = [''background''],
      getZoom = 1, westX = 0, eastX = 0, northY = 0, southY = 0,
      net = (\<lambda>u. if u = ''b.json''
                  then Response True 200 (Some (JsonValue (Some [JString ''{z}/{x}/{y}''])))
                  else Rejected)\<rparr>"

section \<open>Wrapping, clamping and halving\<close>

lemma js_rem_nonneg: "0 \<le> a \<Longrightarrow> 0 < t \<Longrightarrow> js_rem a t = a mod t"
  by (cases "a = 0") (simp_all add: js_rem_def)

lemma js_rem_neg: "a < 0 \<Longrightarrow> 0 < t \<Longrightarrow> js_rem a t = - ((- a) mod t)"
  by (simp add: js_rem_def)

lemma js_rem_lower: "0 < t \<Longrightarrow> - t < js_rem a t"
proof (cases "a < 0")
  case True
  assume t: "0 < t"
  have "(- a) mod t < t" using t by simp
  with True t show ?thesis by (simp add: js_rem_neg)
next
  case False
  assume t: "0 < t"
  have "- t < a mod t" using t pos_mod_sign [of t a] by linarith
  with False t show ?thesis by (simp add: js_rem_nonneg)
qed

lemma js_rem_mod: "0 < t \<Longrightarrow> js_rem a t mod t = a mod t"
proof (cases "a < 0")
  case True
  assume t: "0 < t"
  have "(- ((- a) mod t)) mod t = (- (- a)) mod t" by (rule mod_minus_eq)
  with True t show ?thesis by (simp add: js_rem_neg)
next
  case False
  assume t: "0 < t"
  with False show ?thesis by (simp add: js_rem_nonneg)
qed

lemma wrapX_mod: "0 < t \<Longrightarrow> wrapX t x = x mod t"
proof -
  assume t: "0 < t"
  have "0 \<le> js_rem x t + t" using js_rem_lower [OF t, of x] by simp
  then have "wrapX t x = (js_rem x t + t) mod t"
    using t by (simp add: wrapX_def js_rem_nonneg)
  also have "\<dots> = js_rem x t mod t" by simp
  also have "\<dots> = x mod t" using t by (rule js_rem_mod)
  finally show ?thesis .
qed

lemma wrapX_range: "0 \<le> wrapX (2 ^ z) x \<and> wrapX (2 ^ z) x \<le> 2 ^ z - 1"
proof -
  have t: "(0::int) < 2 ^ z" by simp
  have "0 \<le> x mod 2 ^ z" "x mod 2 ^ z < 2 ^ z" using t by simp_all
  then show ?thesis by (simp add: wrapX_mod [OF t])
qed

lemma clampY_range: "0 \<le> clampY (2 ^ z) y \<and> clampY (2 ^ z) y \<le> 2 ^ z - 1"
proof -
  have "(1::int) \<le> 2 ^ z" by simp
  then show ?thesis unfolding clampY_def by auto
qed

lemma wrapX_id: "0 \<le> x \<Longrightarrow> x < t \<Longrightarrow> wrapX t x = x"
  by (simp add: wrapX_mod)

lemma clampY_id: "0 \<le> y \<Longrightarrow> y < t \<Longrightarrow> clampY t y = y"
  by (simp add: clampY_def)

lemma tilesAtZ_member:
  "p \<in> set (tilesAtZ (visibleTileRange vxMinX vxMaxX vyMinY vyMaxY z)) \<longleftrightarrow>
     (\<exists>x y. vxMinX \<le> x \<and> x \<le> vxMaxX \<and> vyMinY \<le> y \<and> y \<le> vyMaxY \<and>
            p = \<lparr>zt_x = wrapX (2 ^ z) x, zt_y = clampY (2 ^ z) y, zt_z = z\<rparr>)"
proof -
  have "p \<in> set (tilesAtZ (visibleTileRange vxMinX vxMaxX vyMinY vyMaxY z)) \<longleftrightarrow>
     (\<exists>x \<in> {vxMinX..vxMaxX}. \<exists>y \<in> {vyMinY..vyMaxY}.
            p = \<lparr>zt_x = wrapX (2 ^ z) x, zt_y = clampY (2 ^ z) y, zt_z = z\<rparr>)"
    by (simp add: visibleTileRange_def Let_def image_iff)
  also have "\<dots> \<longleftrightarrow> (\<exists>x y. vxMinX \<le> x \<and> x \<le> vxMaxX \<and> vyMinY \<le> y \<and> y \<le> vyMaxY \<and>
            p = \<lparr>zt_x = wrapX (2 ^ z) x, zt_y = clampY (2 ^ z) y, zt_z = z\<rparr>)"
    unfolding Bex_def atLeastAtMost_iff by blast
  finally show ?thesis .
qed

lemma in_concat_map: "p \<in> set (concat (map f xs)) \<longleftrightarrow> (\<exists>a \<in> set xs. p \<in> set (f a))"
  by auto

lemma collectNeighborsTiles_member:
  "p \<in> set (collectNeighborsTiles z minX minY maxX maxY n) \<longleftrightarrow>
     (\<exists>x y. minX - n \<le> x \<and> x \<le> maxX + n \<and> minY - n \<le> y \<and> y \<le> maxY + n \<and>
            \<not> inside minX minY maxX maxY x y \<and>
            p = \<lparr>tile_x = wrapX (2 ^ z) x, tile_y = clampY (2 ^ z) y\<rparr>)"
proof -
  have "p \<in> set (collectNeighborsTiles z minX minY maxX maxY n) \<longleftrightarrow>
     (\<exists>x \<in> {minX - n..maxX + n}. \<exists>y \<in> {minY - n..maxY + n}.
        p \<in> set (if inside minX minY maxX maxY x y then []
                  else [\<lparr>tile_x = wrapX (2 ^ z) x, tile_y = clampY (2 ^ z) y\<rparr>]))"
    by (simp only: collectNeighborsTiles_def Let_def in_concat_map set_upto)
  also have "\<dots> \<longleftrightarrow> (\<exists>x \<in> {minX - n..maxX + n}. \<exists>y \<in> {minY - n..maxY + n}.
        \<not> inside minX minY maxX maxY x y \<and>
        p = \<lparr>tile_x = wrapX (2 ^ z) x, tile_y = clampY (2 ^ z) y\<rparr>)"
    by (intro bex_cong refl) (simp split: if_splits)
  also have "\<dots> \<longleftrightarrow> (\<exists>x y. minX - n \<le> x \<and> x \<le> maxX + n \<and> minY - n \<le> y \<and> y \<le> maxY + n \<and>
            \<not> inside minX minY maxX maxY x y \<and>
            p = \<lparr>tile_x = wrapX (2 ^ z) x, tile_y = clampY (2 ^ z) y\<rparr>)"
    unfolding Bex_def atLeastAtMost_iff by blast
  finally show ?thesis .
qed

lemma halve_div: "halve d x = x div 2 ^ d"
proof (induction d arbitrary: x)
  case 0
  show ?case by simp
next
  case (Suc d)
  have "halve (Suc d) x = (x div 2) div 2 ^ d" using Suc by simp
  also have "\<dots> = x div (2 * 2 ^ d)" by (simp add: zdiv_zmult2_eq)
  finally show ?case by simp
qed

lemma halve_floor: "halve d x = \<lfloor>real_of_int x / 2 ^ d\<rfloor>"
proof -
  have "\<lfloor>real_of_int x / real_of_int (2 ^ d)\<rfloor> = x div 2 ^ d"
    by (rule floor_divide_of_int_eq)
  then show ?thesis by (simp add: halve_div)
qed

section \<open>Claims on the tile-set builder\<close>

text \<open>
  C1, as stated, fails. At zoom 1 with the visible rectangle \<open>[0,0] \<times> [0,0]\<close> and one
  ring, the raw index \<open>(0, -1)\<close> lies outside the rectangle and is kept; clamping
  its \<open>y\<close> gives the tile \<open>(0, 0)\<close>, which is inside the rectangle.
\<close>

theorem collectNeighborsTiles_inside_counterexample:
  "\<lparr>tile_x = 0, tile_y = 0\<rparr> \<in> set (collectNeighborsTiles 1 0 0 0 0 1) \<and> inside 0 0 0 0 0 0"
  by code_simp

text \<open>
  C1, amended. Every tile produced by \<^verbatim>\<open>_collectNeighborsTiles\<close> is the wrap/clamp
  normalization of a raw index \<open>(x, y)\<close> of the rectangle expanded by \<open>n\<close> that is
  not inside the unexpanded rectangle \<open>[minX, maxX] \<times> [minY, maxY]\<close>. When the
  expanded rectangle lies within the tile grid \<open>[0, 2^z - 1] \<times> [0, 2^z - 1]\<close>, the
  produced tile itself is not inside the unexpanded rectangle. For \<open>n = 0\<close> nothing
  is produced.
\<close>

theorem collectNeighborsTiles_ring:
  "(\<forall>p \<in> set (collectNeighborsTiles z minX minY maxX maxY n).
      \<exists>x y. minX - n \<le> x \<and> x \<le> maxX + n \<and> minY - n \<le> y \<and> y \<le> maxY + n \<and>
            \<not> inside minX minY maxX maxY x y \<and>
            p = \<lparr>tile_x = wrapX (2 ^ z) x, tile_y = clampY (2 ^ z) y\<rparr>) \<and>
   (0 \<le> minX - n \<and> maxX + n < 2 ^ z \<and> 0 \<le> minY - n \<and> maxY + n < 2 ^ z \<longrightarrow>
      (\<forall>p \<in> set (collectNeighborsTiles z minX minY maxX maxY n).
         \<not> inside minX minY maxX maxY (tile_x p) (tile_y p))) \<and>
   collectNeighborsTiles z minX minY maxX maxY 0 = []"
proof (intro conjI impI ballI)
  fix p assume "p \<in> set (collectNeighborsTiles z minX minY maxX maxY n)"
  then show "\<exists>x y. minX - n \<le> x \<and> x \<le> maxX + n \<and> minY - n \<le> y \<and> y \<le> maxY + n \<and>
            \<not> inside minX minY maxX maxY x y \<and>
            p = \<lparr>tile_x = wrapX (2 ^ z) x, tile_y = clampY (2 ^ z) y\<rparr>"
    by (simp only: collectNeighborsTiles_member)
next
  fix p
  assume world: "0 \<le> minX - n \<and> maxX + n < 2 ^ z \<and> 0 \<le> minY - n \<and> maxY + n < 2 ^ z"
    and "p \<in> set (collectNeighborsTiles z minX minY maxX maxY n)"
  then obtain x y where xy: "minX - n \<le> x" "x \<le> maxX + n" "minY - n \<le> y" "y \<le> maxY + n"
      "\<not> inside minX minY maxX maxY x y"
      and p: "p = \<lparr>tile_x = wrapX (2 ^ z) x, tile_y = clampY (2 ^ z) y\<rparr>"
    unfolding collectNeighborsTiles_member by blast
  have "wrapX (2 ^ z) x = x" using world xy by (intro wrapX_id) linarith+
  moreover have "clampY (2 ^ z) y = y" using world xy by (intro clampY_id) linarith+
  ultimately show "\<not> inside minX minY maxX maxY (tile_x p) (tile_y p)"
    using xy p by simp
next
  have "\<not> p \<in> set (collectNeighborsTiles z minX minY maxX maxY 0)" for p
    unfolding collectNeighborsTiles_member by (simp add: inside_def)
  then show "collectNeighborsTiles z minX minY maxX maxY 0 = []"
    by (meson last_in_set)
qed

text \<open>
  C1 (amended) at a concrete input, the ring of the tile \<open>(12, 1819, 1603)\<close>: its corner \<open>(1818, 1602)\<close> is produced and
  is outside the visible rectangle.
\<close>

theorem collectNeighborsTiles_ring_witness:
  "\<lparr>tile_x = 1818, tile_y = 1602\<rparr> \<in> set (collectNeighborsTiles 12 1819 1603 1819 1603 1) \<and>
   \<not> inside 1819 1603 1819 1603 1818 1602 \<and>
   collectNeighborsTiles 12 1819 1603 1819 1603 0 = []"
proof -
  have m: "\<lparr>tile_x = 1818, tile_y = 1602\<rparr> \<in> set (collectNeighborsTiles 12 1819 1603 1819 1603 1)"
    by code_simp
  have w: "(0::int) \<le> 1819 - 1 \<and> (1819::int) + 1 < 2 ^ 12 \<and> (0::int) \<le> 1603 - 1 \<and> (1603::int) + 1 < 2 ^ 12"
    by simp
  from collectNeighborsTiles_ring [of 12 1819 1603 1819 1603 1] w m
  have "\<not> inside 1819 1603 1819 1603 (tile_x \<lparr>tile_x = 1818, tile_y = 1602\<rparr>) (tile_y \<lparr>tile_x = 1818, tile_y = 1602\<rparr>)"
    by blast
  moreover from collectNeighborsTiles_ring [of 12 1819 1603 1819 1603 1]
  have "collectNeighborsTiles 12 1819 1603 1819 1603 0 = []" by blast
  ultimately show ?thesis using m by simp
qed

text \<open>
  C5. For every zoom \<open>z\<close> (in particular every \<open>z\<close> in \<open>[0, 22]\<close>) and all floored
  raw indices of the bounds, every tile of the list \<^verbatim>\<open>tilesAtZ\<close> returned by
  \<^verbatim>\<open>_visibleTileRange\<close> has \<open>x\<close> and \<open>y\<close> in \<open>[0, 2^z - 1]\<close>, also when the raw
  indices are negative or exceed \<open>2^z - 1\<close>. At zoom 1 the raw \<open>x = -1\<close> wraps to 1
  and the raw \<open>y = -1\<close> clamps to 0.
\<close>

theorem visibleTileRange_normalized:
  "(\<forall>p \<in> set (tilesAtZ (visibleTileRange vxMinX vxMaxX vyMinY vyMaxY z)).
      0 \<le> zt_x p \<and> zt_x p \<le> 2 ^ z - 1 \<and> 0 \<le> zt_y p \<and> zt_y p \<le> 2 ^ z - 1) \<and>
   wrapX (2 ^ 1) (- 1) = 1 \<and> clampY (2 ^ 1) (- 1) = 0"
proof -
  have "0 \<le> zt_x p \<and> zt_x p \<le> 2 ^ z - 1 \<and> 0 \<le> zt_y p \<and> zt_y p \<le> 2 ^ z - 1"
    if "p \<in> set (tilesAtZ (visibleTileRange vxMinX vxMaxX vyMinY vyMaxY z))" for p
  proof -
    from that obtain x y where "p = \<lparr>zt_x = wrapX (2 ^ z) x, zt_y = clampY (2 ^ z) y, zt_z = z\<rparr>"
      unfolding tilesAtZ_member by blast
    then show ?thesis using wrapX_range [of z x] clampY_range [of z y] by simp
  qed
  moreover have "wrapX (2 ^ 1) (- 1) = 1" by (simp add: wrapX_def js_rem_def)
  moreover have "clampY (2 ^ 1) (- 1) = 0" by (simp add: clampY_def)
  ultimately show ?thesis by blast
qed

text \<open>C5 at a concrete input: the bounds whose four floored indices are \<open>-1\<close>, at zoom 1.\<close>

theorem visibleTileRange_normalized_witness:
  "tilesAtZ (visibleTileRange (- 1) (- 1) (- 1) (- 1) 1) = [\<lparr>zt_x = 1, zt_y = 0, zt_z = 1\<rparr>] \<and>
   0 \<le> zt_x (hd (tilesAtZ (visibleTileRange (- 1) (- 1) (- 1) (- 1) 1))) \<and>
   zt_x (hd (tilesAtZ (visibleTileRange (- 1) (- 1) (- 1) (- 1) 1))) \<le> 2 ^ 1 - 1 \<and>
   0 \<le> zt_y (hd (tilesAtZ (visibleTileRange (- 1) (- 1) (- 1) (- 1) 1))) \<and>
   zt_y (hd (tilesAtZ (visibleTileRange (- 1) (- 1) (- 1) (- 1) 1))) \<le> 2 ^ 1 - 1"
proof -
  have e: "tilesAtZ (visibleTileRange (- 1) (- 1) (- 1) (- 1) 1) = [\<lparr>zt_x = 1, zt_y = 0, zt_z = 1\<rparr>]"
    by code_simp
  then have "hd (tilesAtZ (visibleTileRange (- 1) (- 1) (- 1) (- 1) 1))
      \<in> set (tilesAtZ (visibleTileRange (- 1) (- 1) (- 1) (- 1) 1))"
    by simp
  with visibleTileRange_normalized [of "- 1" "- 1" "- 1" "- 1" 1] e show ?thesis
    by blast
qed

text \<open>
  C7. For every non-negative \<open>x\<close> and every depth \<open>d \<ge> 1\<close>, halving \<open>x\<close> with
  \<^verbatim>\<open>Math.floor(x/2)\<close> \<open>d\<close> times in succession gives \<open>\<lfloor>x / 2^d\<rfloor>\<close>. The tile
  \<open>(5, 10, 10)\<close> has the depth-1 ancestor \<open>(4, 5, 5)\<close> and the depth-2 ancestor
  \<open>(3, 2, 2)\<close>.
\<close>

theorem halve_is_floor_division:
  "(0 \<le> x \<and> 1 \<le> d \<longrightarrow> halve d x = x div 2 ^ d \<and> halve d x = \<lfloor>real_of_int x / 2 ^ d\<rfloor>) \<and>
   fst (parents_loop tmpls [\<lparr>zt_x = 10, zt_y = 10, zt_z = 5\<rparr>] 5 2 1 ([], us)) = [(4, 5, 5), (3, 2, 2)]"
proof -
  have "fst (parents_loop tmpls [\<lparr>zt_x = 10, zt_y = 10, zt_z = 5\<rparr>] 5 2 1 ([], us)) = [(4, 5, 5), (3, 2, 2)]"
    by (simp add: parents_loop.simps [of _ _ _ _ 1] parents_loop.simps [of _ _ _ _ 2]  parents_loop.simps [of _ _ _ _ 3]
        parents_body_def parent_keys_def add_parent_def set_add_def numeral_2_eq_2)
  then show ?thesis using halve_div [of d x] halve_floor [of d x] by simp
qed

text \<open>C7 at a concrete input: two halvings of 10.\<close>

theorem halve_is_floor_division_witness:
  "(0::int) \<le> 10 \<and> (1::nat) \<le> 2 \<and> halve 2 10 = 10 div 2 ^ 2 \<and> halve 2 10 = \<lfloor>real_of_int 10 / 2 ^ 2\<rfloor>"
  using halve_is_floor_division [of 10 2] by simp

section \<open>Sets in insertion order and the ancestor loop\<close>


lemma distinct_set_add: "distinct s \<Longrightarrow> distinct (set_add v s)"
  by (simp add: set_add_def)











section \<open>Resolving the templates\<close>

text \<open>
  What one source does to the accumulator.
\<close>

lemma resolve_source_cases:
  obtains (explicit) v vs where "src_tiles src = Some (v # vs)"
      "resolve_source nt sid src (tm, c, lk) = (tm @ (v # vs), c, lk)"
    | (skipped) "resolve_source nt sid src (tm, c, lk) = (tm, c, lk)"
    | (cached) url t where "src_url src = Some url" "c sid = Some t"
      "resolve_source nt sid src (tm, c, lk) = (tm @ t, c, lk)"
    | (stored) url ta where "src_url src = Some url" "c sid = None"
      "fetchTileJSON nt url = Inr (JsonValue ta)"
      "resolve_source nt sid src (tm, c, lk) =
         (tm @ (case ta of Some a \<Rightarrow> a | None \<Rightarrow> []),
          c(sid \<mapsto> (case ta of Some a \<Rightarrow> a | None \<Rightarrow> [])), lk @ [(sid, url)])"
    | (failed) url where "src_url src = Some url" "c sid = None"
      "\<forall>ta. fetchTileJSON nt url \<noteq> Inr (JsonValue ta)"
      "resolve_source nt sid src (tm, c, lk) = (tm, c, lk @ [(sid, url)])"
proof (cases "\<exists>v vs. src_tiles src = Some (v # vs)")
  case True
  then obtain v vs where t: "src_tiles src = Some (v # vs)" by blast
  then have "resolve_source nt sid src (tm, c, lk) = (tm @ (v # vs), c, lk)"
    by (simp add: resolve_source_def)
  with t show thesis by (rule explicit)
next
  case False
  then have nt: "src_tiles src = None \<or> src_tiles src = Some []"
  proof (cases "src_tiles src")
    case None
    then show ?thesis by simp
  next
    case (Some a)
    with False show ?thesis by (cases a) simp_all
  qed
  show thesis
  proof (cases "src_url src")
    case None
    with nt have "resolve_source nt sid src (tm, c, lk) = (tm, c, lk)"
      by (auto simp: resolve_source_def)
    then show thesis by (rule skipped)
  next
    case (Some url)
    show thesis
    proof (cases "url = []")
      case True
      with nt Some have "resolve_source nt sid src (tm, c, lk) = (tm, c, lk)"
        by (auto simp: resolve_source_def)
      then show thesis by (rule skipped)
    next
      case ne: False
      show thesis
      proof (cases "c sid")
        case (Some t)
        with nt \<open>src_url src = Some url\<close> ne
        have "resolve_source nt sid src (tm, c, lk) = (tm @ t, c, lk)"
          by (auto simp: resolve_source_def)
        with \<open>src_url src = Some url\<close> Some show thesis by (rule cached)
      next
        case None
        show thesis
        proof (cases "\<exists>ta. fetchTileJSON nt url = Inr (JsonValue ta)")
          case True
          then obtain ta where f: "fetchTileJSON nt url = Inr (JsonValue ta)" by blast
          with nt \<open>src_url src = Some url\<close> ne None
          have "resolve_source nt sid src (tm, c, lk) =
             (tm @ (case ta of Some a \<Rightarrow> a | None \<Rightarrow> []),
              c(sid \<mapsto> (case ta of Some a \<Rightarrow> a | None \<Rightarrow> [])), lk @ [(sid, url)])"
            by (auto simp: resolve_source_def Let_def)
          with \<open>src_url src = Some url\<close> None f show thesis by (rule stored)
        next
          case False
          then have f: "\<forall>ta. fetchTileJSON nt url \<noteq> Inr (JsonValue ta)" by blast
          with nt \<open>src_url src = Some url\<close> ne None
          have "resolve_source nt sid src (tm, c, lk) = (tm, c, lk @ [(sid, url)])"
            by (auto simp: resolve_source_def split: sum.splits tilejson.splits)
          with \<open>src_url src = Some url\<close> None f show thesis by (rule failed)
        qed
      qed
    qed
  qed
qed

lemma resolve_source_log:
  "resolve_source nt sid src (tm, c, lk) =
     (case resolve_source nt sid src (tm, c, []) of (tm', c', n) \<Rightarrow> (tm', c', lk @ n))"
  by (simp add: resolve_source_def Let_def
      split: option.splits list.splits sum.splits tilejson.splits)

text \<open>
  One source: what is appended, what is looked up, what the cache keeps.
\<close>

lemma resolve_source_inv:
  assumes "resolve_source nt sid src (tm, c, []) = (tm', c', n)"
  shows "(\<exists>more. tm' = tm @ more) \<and>
         (\<forall>k t. c k = Some t \<longrightarrow> c' k = Some t) \<and>
         (\<forall>k. k \<noteq> sid \<longrightarrow> c' k = c k) \<and>
         (n = [] \<or> (\<exists>u. n = [(sid, u)] \<and> c sid = None \<and>
            (\<forall>ta. fetchTileJSON nt u = Inr (JsonValue ta) \<longrightarrow> c' sid \<noteq> None)))"
proof (cases nt sid src tm c "[] :: (string \<times> string) list" rule: resolve_source_cases)
  case (explicit v vs)
  with assms show ?thesis by auto
next
  case skipped
  with assms show ?thesis by auto
next
  case (cached url t)
  with assms show ?thesis by auto
next
  case (stored url ta)
  with assms show ?thesis by auto
next
  case (failed url)
  with assms show ?thesis by auto
qed

lemma resolve_loop_inv:
  assumes "resolve_loop nt srcs (tm, c, lk) = (tm', c', lk')"
  shows "\<exists>more new. tm' = tm @ more \<and> lk' = lk @ new \<and>
          (\<forall>k t. c k = Some t \<longrightarrow> c' k = Some t) \<and>
          (\<forall>k. k \<notin> fst ` set srcs \<longrightarrow> c' k = c k) \<and>
          (\<forall>su \<in> set new. c (fst su) = None \<and> fst su \<in> fst ` set srcs \<and>
             (\<forall>ta. fetchTileJSON nt (snd su) = Inr (JsonValue ta) \<longrightarrow> c' (fst su) \<noteq> None)) \<and>
          (distinct (map fst srcs) \<longrightarrow> distinct (map fst new)) \<and>
          (\<forall>lk0. resolve_loop nt srcs (tm, c, lk0) = (tm', c', lk0 @ new))"
  using assms
proof (induction srcs arbitrary: tm c lk tm' c' lk')
  case Nil
  then show ?case by simp
next
  case (Cons a rest)
  obtain sid src where a: "a = (sid, src)" by (cases a)
  obtain tm1 c1 n1 where s0: "resolve_source nt sid src (tm, c, []) = (tm1, c1, n1)"
    by (cases "resolve_source nt sid src (tm, c, [])")
  then have s: "resolve_source nt sid src (tm, c, l) = (tm1, c1, l @ n1)" for l
    by (subst resolve_source_log) simp
  from resolve_source_inv [OF s0] obtain more1 where
    tm1: "tm1 = tm @ more1"
    and keep1: "\<forall>k t. c k = Some t \<longrightarrow> c1 k = Some t"
    and other1: "\<forall>k. k \<noteq> sid \<longrightarrow> c1 k = c k"
    and n1: "n1 = [] \<or> (\<exists>u. n1 = [(sid, u)] \<and> c sid = None \<and>
            (\<forall>ta. fetchTileJSON nt u = Inr (JsonValue ta) \<longrightarrow> c1 sid \<noteq> None))"
    by blast
  from Cons.prems have r: "resolve_loop nt rest (tm1, c1, lk @ n1) = (tm', c', lk')"
    by (simp add: a s)
  from Cons.IH [OF r] obtain more2 new2 where
    tm': "tm' = tm1 @ more2"
    and lk': "lk' = (lk @ n1) @ new2"
    and keep2: "\<forall>k t. c1 k = Some t \<longrightarrow> c' k = Some t"
    and other2: "\<forall>k. k \<notin> fst ` set rest \<longrightarrow> c' k = c1 k"
    and new2: "\<forall>su \<in> set new2. c1 (fst su) = None \<and> fst su \<in> fst ` set rest \<and>
             (\<forall>ta. fetchTileJSON nt (snd su) = Inr (JsonValue ta) \<longrightarrow> c' (fst su) \<noteq> None)"
    and dist2: "distinct (map fst rest) \<longrightarrow> distinct (map fst new2)"
    and log2: "\<forall>lk0. resolve_loop nt rest (tm1, c1, lk0) = (tm', c', lk0 @ new2)"
    by blast
  have none1: "c k = None" if "c1 k = None" for k
    using keep1 that by (cases "c k") auto
  have "tm' = tm @ (more1 @ more2)" using tm1 tm' by simp
  moreover have "lk' = lk @ (n1 @ new2)" using lk' by simp
  moreover have "\<forall>k t. c k = Some t \<longrightarrow> c' k = Some t" using keep1 keep2 by blast
  moreover have "\<forall>k. k \<notin> fst ` set (a # rest) \<longrightarrow> c' k = c k"
    using other1 other2 by (simp add: a)
  moreover have "\<forall>su \<in> set (n1 @ new2). c (fst su) = None \<and> fst su \<in> fst ` set (a # rest) \<and>
             (\<forall>ta. fetchTileJSON nt (snd su) = Inr (JsonValue ta) \<longrightarrow> c' (fst su) \<noteq> None)"
  proof
    fix su assume "su \<in> set (n1 @ new2)"
    then consider "su \<in> set n1" | "su \<in> set new2" by auto
    then show "c (fst su) = None \<and> fst su \<in> fst ` set (a # rest) \<and>
             (\<forall>ta. fetchTileJSON nt (snd su) = Inr (JsonValue ta) \<longrightarrow> c' (fst su) \<noteq> None)"
    proof cases
      case 1
      with n1 obtain u where u: "su = (sid, u)" "c sid = None"
        "\<forall>ta. fetchTileJSON nt u = Inr (JsonValue ta) \<longrightarrow> c1 sid \<noteq> None"
        by auto
      have "c' sid \<noteq> None" if "c1 sid \<noteq> None"
        using keep2 that by auto
      with u show ?thesis by (auto simp: a)
    next
      case 2
      with new2 have "c1 (fst su) = None" "fst su \<in> fst ` set rest"
        "\<forall>ta. fetchTileJSON nt (snd su) = Inr (JsonValue ta) \<longrightarrow> c' (fst su) \<noteq> None"
        by blast+
      with none1 show ?thesis by auto
    qed
  qed
  moreover have "distinct (map fst (a # rest)) \<longrightarrow> distinct (map fst (n1 @ new2))"
  proof
    assume d: "distinct (map fst (a # rest))"
    then have "sid \<notin> fst ` set rest" "distinct (map fst new2)"
      using dist2 by (simp_all add: a)
    moreover have "fst ` set new2 \<subseteq> fst ` set rest" using new2 by auto
    moreover have "fst ` set n1 \<subseteq> {sid}" "distinct (map fst n1)" using n1 by auto
    ultimately show "distinct (map fst (n1 @ new2))" by auto
  qed
  moreover have "\<forall>lk0. resolve_loop nt (a # rest) (tm, c, lk0) = (tm', c', lk0 @ (n1 @ new2))"
    using log2 by (simp add: a s)
  ultimately show ?case by blast
qed

lemma resolve_loop_append:
  "resolve_loop nt (xs @ ys) acc = resolve_loop nt ys (resolve_loop nt xs acc)"
proof (induction xs arbitrary: acc)
  case Nil
  show ?case by simp
next
  case (Cons a xs)
  obtain sid src where "a = (sid, src)" by (cases a)
  then show ?case using Cons.IH by simp
qed

lemma set_string_entries: "set (string_entries vs) = {u. JString u \<in> set vs}"
  by (induction vs rule: string_entries.induct) auto

lemma string_entries_mono: "set a \<subseteq> set b \<Longrightarrow> set (string_entries a) \<subseteq> set (string_entries b)"
  by (auto simp: set_string_entries)

text \<open>
  The resolver, through its loop.
\<close>

lemma resolveTemplates_loop:
  assumes "getStyle env = Some srcs"
  obtains tm c new where
    "resolve_loop (net env) srcs ([], tilejsonCache st, []) = (tm, c, new)"
    "resolveTemplates env st = (new, st\<lparr>tilejsonCache := c, templates := string_entries tm\<rparr>)"
proof -
  obtain tm c new where r: "resolve_loop (net env) srcs ([], tilejsonCache st, []) = (tm, c, new)"
    by (cases "resolve_loop (net env) srcs ([], tilejsonCache st, [])")
  with assms have "resolveTemplates env st = (new, st\<lparr>tilejsonCache := c, templates := string_entries tm\<rparr>)"
    by (simp add: resolveTemplates_def)
  with r show thesis by (rule that)
qed

lemma resolveTemplates_lookups:
  "\<forall>su \<in> set (fst (resolveTemplates env st)).
       tilejsonCache st (fst su) = None \<and>
       (\<forall>ta. fetchTileJSON (net env) (snd su) = Inr (JsonValue ta) \<longrightarrow>
          tilejsonCache (snd (resolveTemplates env st)) (fst su) \<noteq> None)"
proof (cases "getStyle env")
  case None
  then show ?thesis by (simp add: resolveTemplates_def)
next
  case (Some srcs)
  then obtain tm c new where
    r: "resolve_loop (net env) srcs ([], tilejsonCache st, []) = (tm, c, new)"
    and e: "resolveTemplates env st = (new, st\<lparr>tilejsonCache := c, templates := string_entries tm\<rparr>)"
    by (rule resolveTemplates_loop)
  from resolve_loop_inv [OF r] show ?thesis unfolding e by auto
qed

lemma resolveTemplates_distinct:
  assumes "getStyle env = Some srcs" "distinct (map fst srcs)"
  shows "distinct (map fst (fst (resolveTemplates env st)))"
proof -
  from assms(1) obtain tm c new where
    r: "resolve_loop (net env) srcs ([], tilejsonCache st, []) = (tm, c, new)"
    and e: "resolveTemplates env st = (new, st\<lparr>tilejsonCache := c, templates := string_entries tm\<rparr>)"
    by (rule resolveTemplates_loop)
  from resolve_loop_inv [OF r] assms(2) show ?thesis unfolding e by auto
qed

lemma resolveTemplates_keeps:
  assumes "tilejsonCache st k = Some t"
  shows "tilejsonCache (snd (resolveTemplates env st)) k = Some t"
proof (cases "getStyle env")
  case None
  with assms show ?thesis by (simp add: resolveTemplates_def)
next
  case (Some srcs)
  then obtain tm c new where
    r: "resolve_loop (net env) srcs ([], tilejsonCache st, []) = (tm, c, new)"
    and e: "resolveTemplates env st = (new, st\<lparr>tilejsonCache := c, templates := string_entries tm\<rparr>)"
    by (rule resolveTemplates_loop)
  from resolve_loop_inv [OF r] assms show ?thesis unfolding e by auto
qed

lemma resolveTemplates_skips_cached:
  assumes "tilejsonCache st k = Some t"
  shows "k \<notin> fst ` set (fst (resolveTemplates env st))"
  using resolveTemplates_lookups [of env st] assms by force

text \<open>
  A run of the cycle resolves the templates or leaves the cache alone.
\<close>

lemma prefetchNow_cache:
  "(lookups (prefetchNow ops env st) = [] \<and>
      tilejsonCache (after (prefetchNow ops env st)) = tilejsonCache st) \<or>
   (lookups (prefetchNow ops env st) = fst (resolveTemplates env st) \<and>
      tilejsonCache (after (prefetchNow ops env st)) = tilejsonCache (snd (resolveTemplates env st)))"
  by (simp add: prefetchNow_def Let_def split: prod.splits)

lemma step_keeps_cached:
  assumes "ev \<noteq> Destroy" "tilejsonCache st k = Some t"
  shows "tilejsonCache (after (step ops env ev st)) k = Some t \<and>
         k \<notin> fst ` set (lookups (step ops env ev st))"
proof (cases ev)
  case MoveEnd
  with assms show ?thesis by (simp add: step_def onMoveEnd_def)
next
  case StyleData
  have "tilejsonCache (ensureDebugLayers env (st\<lparr>styledataGuard := True\<rparr>)) k = Some t"
    using assms by (simp add: ensureDebugLayers_def Let_def)
  from resolveTemplates_keeps [OF this, of env] resolveTemplates_skips_cached [OF this, of env]
  show ?thesis using StyleData assms
    by (auto simp: step_def onStyleData_def split: prod.splits)
next
  case AnimationFrame
  with assms show ?thesis by (simp add: step_def)
next
  case TimerFired
  have c: "tilejsonCache (st\<lparr>debounceTimer := False\<rparr>) k = Some t" using assms by simp
  show ?thesis
  proof (cases "debounceTimer st")
    case True
    from prefetchNow_cache [of ops env "st\<lparr>debounceTimer := False\<rparr>"]
      resolveTemplates_keeps [OF c, of env] resolveTemplates_skips_cached [OF c, of env] c
    show ?thesis using TimerFired True by (auto simp: step_def)
  next
    case False
    with TimerFired assms show ?thesis by (simp add: step_def)
  qed
next
  case (FetchSettled u ok)
  with assms show ?thesis by (simp add: step_def fetch_settled_def)
next
  case Destroy
  with assms show ?thesis by simp
qed

text \<open>
  C8, as stated, fails for a lookup that fails. On the small map the descriptor of
  \<open>a\<close> is unreachable: the first resolution looks it up, stores nothing for it (while
  it stores the templates of \<open>b\<close>, so the cache has not been cleared), and the next
  resolution looks \<open>a\<close> up again.
\<close>

theorem tilejson_lookup_repeated_counterexample:
  "(''a'', ''a.json'') \<in> set (fst (resolveTemplates demo_env constructed)) \<and>
   tilejsonCache (snd (resolveTemplates demo_env constructed)) ''b'' = Some [JString ''{z}/{x}/{y}''] \<and>
   (''a'', ''a.json'') \<in> set (fst (resolveTemplates demo_env (snd (resolveTemplates demo_env constructed))))"
  by code_simp

text \<open>
  What a resolution stores: the list of every lookup that returned a document, and
  nothing else.
\<close>

lemma resolve_source_cache:
  assumes "resolve_source nt sid src (tm, c, lk) = (tm1, c1, lk1)"
  shows "(c1 = c \<and> lk1 = lk) \<or>
         (\<exists>u. lk1 = lk @ [(sid, u)] \<and> c sid = None \<and>
            ((\<exists>ta. fetchTileJSON nt u = Inr (JsonValue ta) \<and>
                   c1 = c(sid \<mapsto> (case ta of Some a \<Rightarrow> a | None \<Rightarrow> []))) \<or>
             ((\<forall>ta. fetchTileJSON nt u \<noteq> Inr (JsonValue ta)) \<and> c1 = c)))"
proof (cases nt sid src tm c lk rule: resolve_source_cases)
  case (explicit v vs)
  with assms show ?thesis by simp
next
  case skipped
  with assms show ?thesis by simp
next
  case (cached url t)
  with assms show ?thesis by simp
next
  case (stored url ta)
  with assms have "lk1 = lk @ [(sid, url)]"
    "c1 = c(sid \<mapsto> (case ta of Some a \<Rightarrow> a | None \<Rightarrow> []))"
    by simp_all
  with stored show ?thesis by blast
next
  case (failed url)
  with assms have "lk1 = lk @ [(sid, url)]" "c1 = c" by simp_all
  with failed show ?thesis by blast
qed

lemma resolve_loop_cache:
  assumes "resolve_loop nt srcs (tm, c, lk) = (tm', c', lk')"
  shows "\<exists>new. lk' = lk @ new \<and>
          (\<forall>su \<in> set new. \<forall>ta. fetchTileJSON nt (snd su) = Inr (JsonValue ta) \<longrightarrow>
             c' (fst su) = Some (case ta of Some a \<Rightarrow> a | None \<Rightarrow> [])) \<and>
          (\<forall>k. c' k \<noteq> c k \<longrightarrow>
             (\<exists>u ta. (k, u) \<in> set new \<and> fetchTileJSON nt u = Inr (JsonValue ta)))"
  using assms
proof (induction srcs arbitrary: tm c lk)
  case Nil
  then show ?case by simp
next
  case (Cons a rest)
  obtain sid src where a: "a = (sid, src)" by (cases a)
  obtain tm1 c1 lk1 where s: "resolve_source nt sid src (tm, c, lk) = (tm1, c1, lk1)"
    by (cases "resolve_source nt sid src (tm, c, lk)")
  with Cons.prems have r: "resolve_loop nt rest (tm1, c1, lk1) = (tm', c', lk')"
    by (simp add: a)
  from Cons.IH [OF r] obtain new2 where
    lk': "lk' = lk1 @ new2"
    and stored2: "\<forall>su \<in> set new2. \<forall>ta. fetchTileJSON nt (snd su) = Inr (JsonValue ta) \<longrightarrow>
             c' (fst su) = Some (case ta of Some a \<Rightarrow> a | None \<Rightarrow> [])"
    and only2: "\<forall>k. c' k \<noteq> c1 k \<longrightarrow>
             (\<exists>u ta. (k, u) \<in> set new2 \<and> fetchTileJSON nt u = Inr (JsonValue ta))"
    by blast
  from resolve_loop_inv [OF r] have keep: "\<forall>k t. c1 k = Some t \<longrightarrow> c' k = Some t" by blast
  from resolve_source_cache [OF s] consider
      (quiet) "c1 = c" "lk1 = lk"
    | (stored) u ta where "lk1 = lk @ [(sid, u)]" "fetchTileJSON nt u = Inr (JsonValue ta)"
        "c1 = c(sid \<mapsto> (case ta of Some a \<Rightarrow> a | None \<Rightarrow> []))"
    | (failed) u where "lk1 = lk @ [(sid, u)]" "\<forall>ta. fetchTileJSON nt u \<noteq> Inr (JsonValue ta)"
        "c1 = c"
    by blast
  then show ?case
  proof cases
    case quiet
    with lk' stored2 only2 show ?thesis by auto
  next
    case (stored u ta)
    have here: "c' sid = Some (case ta of Some a \<Rightarrow> a | None \<Rightarrow> [])"
      using keep stored(3) by simp
    have "lk' = lk @ ((sid, u) # new2)" using lk' stored(1) by simp
    moreover have "\<forall>su \<in> set ((sid, u) # new2). \<forall>ta. fetchTileJSON nt (snd su) = Inr (JsonValue ta) \<longrightarrow>
             c' (fst su) = Some (case ta of Some a \<Rightarrow> a | None \<Rightarrow> [])"
      using stored2 here stored(2) by auto
    moreover have "\<forall>k. c' k \<noteq> c k \<longrightarrow>
             (\<exists>u' ta. (k, u') \<in> set ((sid, u) # new2) \<and> fetchTileJSON nt u' = Inr (JsonValue ta))"
    proof (intro allI impI)
      fix k assume d: "c' k \<noteq> c k"
      show "\<exists>u' ta. (k, u') \<in> set ((sid, u) # new2) \<and> fetchTileJSON nt u' = Inr (JsonValue ta)"
      proof (cases "k = sid")
        case True
        with stored(2) show ?thesis by auto
      next
        case False
        with d stored(3) have "c' k \<noteq> c1 k" by simp
        with only2 obtain u' ta' where "(k, u') \<in> set new2"
          "fetchTileJSON nt u' = Inr (JsonValue ta')"
          by blast
        then show ?thesis by auto
      qed
    qed
    ultimately show ?thesis by blast
  next
    case (failed u)
    have "lk' = lk @ ((sid, u) # new2)" using lk' failed(1) by simp
    moreover have "\<forall>su \<in> set ((sid, u) # new2). \<forall>ta. fetchTileJSON nt (snd su) = Inr (JsonValue ta) \<longrightarrow>
             c' (fst su) = Some (case ta of Some a \<Rightarrow> a | None \<Rightarrow> [])"
      using stored2 failed(2) by auto
    moreover have "\<forall>k. c' k \<noteq> c k \<longrightarrow>
             (\<exists>u' ta. (k, u') \<in> set ((sid, u) # new2) \<and> fetchTileJSON nt u' = Inr (JsonValue ta))"
    proof (intro allI impI)
      fix k assume "c' k \<noteq> c k"
      with only2 failed(3) obtain u' ta' where "(k, u') \<in> set new2"
        "fetchTileJSON nt u' = Inr (JsonValue ta')"
        by blast
      then show "\<exists>u' ta. (k, u') \<in> set ((sid, u) # new2) \<and> fetchTileJSON nt u' = Inr (JsonValue ta)"
        by auto
    qed
    ultimately show ?thesis by blast
  qed
qed

lemma resolveTemplates_stores:
  "(\<forall>su \<in> set (fst (resolveTemplates env st)).
      \<forall>ta. fetchTileJSON (net env) (snd su) = Inr (JsonValue ta) \<longrightarrow>
        tilejsonCache (snd (resolveTemplates env st)) (fst su) =
          Some (case ta of Some a \<Rightarrow> a | None \<Rightarrow> [])) \<and>
   (\<forall>k. tilejsonCache (snd (resolveTemplates env st)) k \<noteq> tilejsonCache st k \<longrightarrow>
      (\<exists>u ta. (k, u) \<in> set (fst (resolveTemplates env st)) \<and>
         fetchTileJSON (net env) u = Inr (JsonValue ta)))"
proof (cases "getStyle env")
  case None
  then show ?thesis by (simp add: resolveTemplates_def)
next
  case (Some srcs)
  then obtain tm c new where
    r: "resolve_loop (net env) srcs ([], tilejsonCache st, []) = (tm, c, new)"
    and e: "resolveTemplates env st = (new, st\<lparr>tilejsonCache := c, templates := string_entries tm\<rparr>)"
    by (rule resolveTemplates_loop)
  from resolve_loop_cache [OF r] show ?thesis unfolding e by simp
qed

lemma resolveTemplates_failed_stores_nothing:
  assumes style: "getStyle env = Some srcs" "distinct (map fst srcs)"
    and su: "su \<in> set (fst (resolveTemplates env st))"
    and down: "\<forall>ta. fetchTileJSON (net env) (snd su) \<noteq> Inr (JsonValue ta)"
  shows "tilejsonCache (snd (resolveTemplates env st)) (fst su) = None"
proof (rule ccontr)
  assume "tilejsonCache (snd (resolveTemplates env st)) (fst su) \<noteq> None"
  moreover from resolveTemplates_lookups [of env st] su
  have "tilejsonCache st (fst su) = None" by blast
  ultimately have "tilejsonCache (snd (resolveTemplates env st)) (fst su) \<noteq> tilejsonCache st (fst su)"
    by simp
  with resolveTemplates_stores [of env st] obtain u ta where
    u: "(fst su, u) \<in> set (fst (resolveTemplates env st))"
    and ok: "fetchTileJSON (net env) u = Inr (JsonValue ta)"
    by blast
  from resolveTemplates_distinct [OF style, of st] u su
  have "u = snd su"
    by (metis eq_key_imp_eq_value prod.collapse)
  with ok down show False by simp
qed

text \<open>
  C8, amended. A resolution looks up only sources that are not in the TileJSON cache,
  each at most once in the resolution (the identifiers of a style being distinct). A
  lookup that returns a document stores the document's template list in the cache, the
  empty list when the document has none. A lookup that fails stores nothing: a
  resolution changes the cache only at a source whose lookup returned a document, and
  after it the source of a failed lookup is still not in the cache. An entry of the
  cache is kept by every event but \<^verbatim>\<open>destroy()\<close>, and no event looks up a source that
  is in the cache: a source whose lookup returned a document is never looked up again
  until the cache is cleared.
\<close>

theorem tilejson_lookup_once:
  "(\<forall>su \<in> set (fst (resolveTemplates env st)).
       tilejsonCache st (fst su) = None \<and>
       (\<forall>ta. fetchTileJSON (net env) (snd su) = Inr (JsonValue ta) \<longrightarrow>
          tilejsonCache (snd (resolveTemplates env st)) (fst su) =
            Some (case ta of Some a \<Rightarrow> a | None \<Rightarrow> []))) \<and>
   (\<forall>k. tilejsonCache (snd (resolveTemplates env st)) k \<noteq> tilejsonCache st k \<longrightarrow>
       (\<exists>u ta. (k, u) \<in> set (fst (resolveTemplates env st)) \<and>
          fetchTileJSON (net env) u = Inr (JsonValue ta))) \<and>
   (\<forall>srcs. getStyle env = Some srcs \<and> distinct (map fst srcs) \<longrightarrow>
       distinct (map fst (fst (resolveTemplates env st))) \<and>
       (\<forall>su \<in> set (fst (resolveTemplates env st)).
          (\<forall>ta. fetchTileJSON (net env) (snd su) \<noteq> Inr (JsonValue ta)) \<longrightarrow>
          tilejsonCache (snd (resolveTemplates env st)) (fst su) = None)) \<and>
   (\<forall>k t. ev \<noteq> Destroy \<and> tilejsonCache st k = Some t \<longrightarrow>
       tilejsonCache (after (step ops env ev st)) k = Some t \<and>
       k \<notin> fst ` set (lookups (step ops env ev st)))"
proof (intro conjI allI impI ballI)
  fix su assume su: "su \<in> set (fst (resolveTemplates env st))"
  from resolveTemplates_lookups [of env st] su
  show "tilejsonCache st (fst su) = None" by blast
  fix ta assume "fetchTileJSON (net env) (snd su) = Inr (JsonValue ta)"
  with resolveTemplates_stores [of env st] su
  show "tilejsonCache (snd (resolveTemplates env st)) (fst su) =
            Some (case ta of Some a \<Rightarrow> a | None \<Rightarrow> [])"
    by blast
next
  fix k assume "tilejsonCache (snd (resolveTemplates env st)) k \<noteq> tilejsonCache st k"
  with resolveTemplates_stores [of env st]
  show "\<exists>u ta. (k, u) \<in> set (fst (resolveTemplates env st)) \<and>
          fetchTileJSON (net env) u = Inr (JsonValue ta)"
    by blast
next
  fix srcs assume style: "getStyle env = Some srcs \<and> distinct (map fst srcs)"
  then show "distinct (map fst (fst (resolveTemplates env st)))"
    using resolveTemplates_distinct [of env srcs st] by blast
  fix su
  assume "su \<in> set (fst (resolveTemplates env st))"
    "\<forall>ta. fetchTileJSON (net env) (snd su) \<noteq> Inr (JsonValue ta)"
  with style show "tilejsonCache (snd (resolveTemplates env st)) (fst su) = None"
    using resolveTemplates_failed_stores_nothing [of env srcs su st] by blast
next
  fix k t assume "ev \<noteq> Destroy \<and> tilejsonCache st k = Some t"
  then show "tilejsonCache (after (step ops env ev st)) k = Some t"
    "k \<notin> fst ` set (lookups (step ops env ev st))"
    using step_keeps_cached [of ev st k t ops env] by blast+
qed

text \<open>
  C8 (amended) at a concrete input. The first resolution of the small map looks up
  both sources: the list of \<open>b\<close> is stored and nothing is stored for \<open>a\<close>, whose lookup
  fails. After \<^verbatim>\<open>_bind()\<close> and the next animation frame, a \<^verbatim>\<open>styledata\<close> event
  keeps the entry of \<open>b\<close> and does not look \<open>b\<close> up.
\<close>

theorem tilejson_lookup_once_witness:
  "(''b'', ''b.json'') \<in> set (fst (resolveTemplates demo_env constructed)) \<and>
   tilejsonCache constructed ''b'' = None \<and>
   fetchTileJSON (net demo_env) ''b.json'' = Inr (JsonValue (Some [JString ''{z}/{x}/{y}''])) \<and>
   tilejsonCache (snd (resolveTemplates demo_env constructed)) ''b'' = Some [JString ''{z}/{x}/{y}''] \<and>
   (''a'', ''a.json'') \<in> set (fst (resolveTemplates demo_env constructed)) \<and>
   fetchTileJSON (net demo_env) ''a.json'' = Inl NetworkError \<and>
   tilejsonCache (snd (resolveTemplates demo_env constructed)) ''a'' = None \<and>
   distinct (map fst (fst (resolveTemplates demo_env constructed))) \<and>
   \<not> styledataGuard (after (step demo_opts demo_env AnimationFrame (snd (bind demo_env constructed)))) \<and>
   lookups (step demo_opts demo_env StyleData
     (after (step demo_opts demo_env AnimationFrame (snd (bind demo_env constructed))))) =
     [(''a'', ''a.json'')] \<and>
   tilejsonCache (after (step demo_opts demo_env StyleData
     (after (step demo_opts demo_env AnimationFrame (snd (bind demo_env constructed)))))) ''b''
     = Some [JString ''{z}/{x}/{y}''] \<and>
   ''b'' \<notin> fst ` set (lookups (step demo_opts demo_env StyleData
     (after (step demo_opts demo_env AnimationFrame (snd (bind demo_env constructed))))))"
proof -
  let ?s1 = "after (step demo_opts demo_env AnimationFrame (snd (bind demo_env constructed)))"
  have mb: "(''b'', ''b.json'') \<in> set (fst (resolveTemplates demo_env constructed))"
    by code_simp
  have ma: "(''a'', ''a.json'') \<in> set (fst (resolveTemplates demo_env constructed))"
    by code_simp
  have fb: "fetchTileJSON (net demo_env) ''b.json'' = Inr (JsonValue (Some [JString ''{z}/{x}/{y}'']))"
    by code_simp
  have fa: "fetchTileJSON (net demo_env) ''a.json'' = Inl NetworkError"
    by code_simp
  then have down: "\<forall>ta. fetchTileJSON (net demo_env) (snd (''a'', ''a.json'')) \<noteq> Inr (JsonValue ta)"
    by simp
  have s: "getStyle demo_env = Some [(''a'', \<lparr>src_tiles = None, src_url = Some ''a.json''\<rparr>),
                       (''b'', \<lparr>src_tiles = None, src_url = Some ''b.json''\<rparr>)] \<and>
     distinct (map fst [(''a'', \<lparr>src_tiles = None, src_url = Some ''a.json''\<rparr>),
                       (''b'', \<lparr>src_tiles = None, src_url = Some ''b.json''\<rparr>)])"
    by (simp add: demo_env_def)
  have g: "\<not> styledataGuard ?s1" by code_simp
  have l: "lookups (step demo_opts demo_env StyleData ?s1) = [(''a'', ''a.json'')]"
    by code_simp
  have c: "StyleData \<noteq> Destroy \<and> tilejsonCache ?s1 ''b'' = Some [JString ''{z}/{x}/{y}'']"
    by code_simp
  note inst = tilejson_lookup_once [of demo_env constructed StyleData]
  from inst mb fb have "tilejsonCache constructed ''b'' = None \<and>
      tilejsonCache (snd (resolveTemplates demo_env constructed)) ''b'' = Some [JString ''{z}/{x}/{y}'']"
    by fastforce
  moreover from inst s have "distinct (map fst (fst (resolveTemplates demo_env constructed)))"
    by blast
  moreover from inst s ma down
  have "tilejsonCache (snd (resolveTemplates demo_env constructed)) (fst (''a'', ''a.json'')) = None"
    by blast
  moreover from tilejson_lookup_once [of demo_env ?s1 StyleData demo_opts] c
  have "tilejsonCache (after (step demo_opts demo_env StyleData ?s1)) ''b''
     = Some [JString ''{z}/{x}/{y}''] \<and>
   ''b'' \<notin> fst ` set (lookups (step demo_opts demo_env StyleData ?s1))"
    by blast
  ultimately show ?thesis using mb ma fb fa g l by simp
qed

text \<open>
  Every source of a style with distinct identifiers contributes its templates.
\<close>

lemma resolve_loop_contains:
  assumes r: "resolve_loop nt srcs (tm, c, lk) = (tm', c', lk')"
    and p: "(s, src) \<in> set srcs" and d: "distinct (map fst srcs)"
  shows "(\<forall>v vs. src_tiles src = Some (v # vs) \<longrightarrow> set (v # vs) \<subseteq> set tm') \<and>
         (\<forall>u t. (src_tiles src = None \<or> src_tiles src = Some []) \<and> src_url src = Some u \<and> u \<noteq> [] \<and>
                c s = Some t \<longrightarrow> set t \<subseteq> set tm') \<and>
         (\<forall>u a. (src_tiles src = None \<or> src_tiles src = Some []) \<and> src_url src = Some u \<and> u \<noteq> [] \<and>
                c s = None \<and> fetchTileJSON nt u = Inr (JsonValue (Some a)) \<longrightarrow> set a \<subseteq> set tm')"
proof -
  from p obtain xs ys where split: "srcs = xs @ (s, src) # ys"
    by (meson split_list)
  with d have fresh: "s \<notin> fst ` set xs" by auto
  obtain tm1 c1 lk1 where r1: "resolve_loop nt xs (tm, c, lk) = (tm1, c1, lk1)"
    by (cases "resolve_loop nt xs (tm, c, lk)")
  obtain tm2 c2 lk2 where r2: "resolve_source nt s src (tm1, c1, lk1) = (tm2, c2, lk2)"
    by (cases "resolve_source nt s src (tm1, c1, lk1)")
  from r have r3: "resolve_loop nt ys (tm2, c2, lk2) = (tm', c', lk')"
    by (simp add: split resolve_loop_append r1 r2)
  from resolve_loop_inv [OF r1] fresh have c1: "c1 s = c s" by blast
  from resolve_loop_inv [OF r3] obtain more where tm': "tm' = tm2 @ more" by blast
  show ?thesis
  proof (intro conjI allI impI)
    fix v vs assume "src_tiles src = Some (v # vs)"
    then have "tm2 = tm1 @ (v # vs)" using r2 by (simp add: resolve_source_def)
    then show "set (v # vs) \<subseteq> set tm'" using tm' by auto
  next
    fix u t
    assume "(src_tiles src = None \<or> src_tiles src = Some []) \<and> src_url src = Some u \<and> u \<noteq> [] \<and>
                c s = Some t"
    then have "tm2 = tm1 @ t" using r2 c1 by (auto simp: resolve_source_def)
    then show "set t \<subseteq> set tm'" using tm' by auto
  next
    fix u a
    assume "(src_tiles src = None \<or> src_tiles src = Some []) \<and> src_url src = Some u \<and> u \<noteq> [] \<and>
                c s = None \<and> fetchTileJSON nt u = Inr (JsonValue (Some a))"
    then have "tm2 = tm1 @ a" using r2 c1 by (auto simp: resolve_source_def)
    then show "set a \<subseteq> set tm'" using tm' by auto
  qed
qed

text \<open>
  Every entry of the local array comes from a source: from its own template list, or
  from the list that the cache holds for it after the resolution.
\<close>

lemma resolve_loop_origin:
  assumes "resolve_loop nt srcs (tm, c, lk) = (tm', c', lk')" "v \<in> set tm'"
  shows "v \<in> set tm \<or>
         (\<exists>p \<in> set srcs. (\<exists>w ws. src_tiles (snd p) = Some (w # ws) \<and> v \<in> set (w # ws)) \<or>
                          (\<exists>t. c' (fst p) = Some t \<and> v \<in> set t))"
  using assms
proof (induction srcs arbitrary: tm c lk)
  case Nil
  then show ?case by simp
next
  case (Cons a rest)
  obtain sid src where a: "a = (sid, src)" by (cases a)
  obtain tm1 c1 lk1 where s: "resolve_source nt sid src (tm, c, lk) = (tm1, c1, lk1)"
    by (cases "resolve_source nt sid src (tm, c, lk)")
  with Cons.prems have r: "resolve_loop nt rest (tm1, c1, lk1) = (tm', c', lk')"
    by (simp add: a)
  from resolve_loop_inv [OF r] have keep: "\<forall>k t. c1 k = Some t \<longrightarrow> c' k = Some t" by blast
  have here: "v \<in> set tm \<or> (\<exists>w ws. src_tiles src = Some (w # ws) \<and> v \<in> set (w # ws)) \<or>
      (\<exists>t. c' sid = Some t \<and> v \<in> set t)" if v: "v \<in> set tm1"
  proof (cases nt sid src tm c lk rule: resolve_source_cases)
    case (explicit w ws)
    with s v show ?thesis by auto
  next
    case skipped
    with s v show ?thesis by simp
  next
    case (cached url t)
    with s have "tm1 = tm @ t" "c1 = c" by simp_all
    with cached(2) keep v show ?thesis by auto
  next
    case (stored url ta)
    with s have "tm1 = tm @ (case ta of Some a \<Rightarrow> a | None \<Rightarrow> [])"
      "c1 = c(sid \<mapsto> (case ta of Some a \<Rightarrow> a | None \<Rightarrow> []))"
      by simp_all
    moreover from this keep have "c' sid = Some (case ta of Some a \<Rightarrow> a | None \<Rightarrow> [])"
      by simp
    ultimately show ?thesis using v by auto
  next
    case (failed url)
    with s v show ?thesis by simp
  qed
  from Cons.IH [OF r Cons.prems(2)] consider "v \<in> set tm1"
    | "\<exists>p \<in> set rest. (\<exists>w ws. src_tiles (snd p) = Some (w # ws) \<and> v \<in> set (w # ws)) \<or>
                          (\<exists>t. c' (fst p) = Some t \<and> v \<in> set t)"
    by blast
  then show ?case
  proof cases
    case 1
    from here [OF this] show ?thesis by (auto simp: a)
  next
    case 2
    then show ?thesis by auto
  qed
qed

lemma fetchTileJSON_fails:
  "net env url = Rejected \<or> net env url = Response False status body \<Longrightarrow>
     \<exists>e. fetchTileJSON (net env) url = Inl e"
  by (auto simp: fetchTileJSON_def)

lemma resolve_source_failed:
  assumes "src_tiles src = None \<or> src_tiles src = Some []" "src_url src = Some url" "url \<noteq> []"
    "c sid = None" "fetchTileJSON nt url = Inl e"
  shows "resolve_source nt sid src (tm, c, lk) = (tm, c, lk @ [(sid, url)])"
  using assms by (auto simp: resolve_source_def)

lemma resolve_loop_failed_source:
  assumes "src_tiles src = None \<or> src_tiles src = Some []" "src_url src = Some url" "url \<noteq> []"
    "c sid = None" "sid \<notin> fst ` set xs" "fetchTileJSON nt url = Inl e"
    and r: "resolve_loop nt (xs @ (sid, src) # ys) ([], c, []) = (tm', c', lk')"
  shows "\<exists>new. resolve_loop nt (xs @ ys) ([], c, []) = (tm', c', new) \<and> (sid, url) \<in> set lk'"
proof -
  obtain tm1 c1 lk1 where r1: "resolve_loop nt xs ([], c, []) = (tm1, c1, lk1)"
    by (cases "resolve_loop nt xs ([], c, [])")
  from resolve_loop_inv [OF r1] assms(4,5) have c1: "c1 sid = None" by auto
  have r2: "resolve_source nt sid src (tm1, c1, lk1) = (tm1, c1, lk1 @ [(sid, url)])"
    using assms(1-3) c1 assms(6) by (rule resolve_source_failed)
  from r have r3: "resolve_loop nt ys (tm1, c1, lk1 @ [(sid, url)]) = (tm', c', lk')"
    by (simp add: resolve_loop_append r1 r2)
  from resolve_loop_inv [OF r3] obtain new where
    lk': "lk' = (lk1 @ [(sid, url)]) @ new"
    and any: "\<forall>lk0. resolve_loop nt ys (tm1, c1, lk0) = (tm', c', lk0 @ new)"
    by blast
  from any have "resolve_loop nt (xs @ ys) ([], c, []) = (tm', c', lk1 @ new)"
    by (simp add: resolve_loop_append r1)
  with lk' show ?thesis by auto
qed

text \<open>
  C9. Let the lookup of one remote source fail, by a network error or a status that
  is not a success (the source has no template list of its own and is not in the
  cache; the identifiers of the style are distinct). Then the lookup is made, nothing
  is stored for the source, and the resolution ends with the template list and the
  cache that the style without this source gives: the other sources are resolved as if
  the source were absent. The source contributes no template: every template of the
  resolver's list is a string of the template list of another source, its own or the
  one that the cache holds for it after the resolution. The templates of the other
  sources still appear: every string of the template list of another source (its own
  list, the list the cache held for it, or the list its lookup returns) is in the
  resolver's template list.
\<close>

theorem failed_lookup_isolated:
  "getStyle env = Some (xs @ (sid, src) # ys) \<and> distinct (map fst (xs @ (sid, src) # ys)) \<and>
   tilejsonCache st sid = None \<and> (src_tiles src = None \<or> src_tiles src = Some []) \<and>
   src_url src = Some url \<and> url \<noteq> [] \<and>
   (net env url = Rejected \<or> net env url = Response False status body) \<longrightarrow>
     (sid, url) \<in> set (fst (resolveTemplates env st)) \<and>
     tilejsonCache (snd (resolveTemplates env st)) sid = None \<and>
     templates (snd (resolveTemplates env st)) =
       templates (snd (resolveTemplates (env\<lparr>getStyle := Some (xs @ ys)\<rparr>) st)) \<and>
     tilejsonCache (snd (resolveTemplates env st)) =
       tilejsonCache (snd (resolveTemplates (env\<lparr>getStyle := Some (xs @ ys)\<rparr>) st)) \<and>
     (\<forall>u \<in> set (templates (snd (resolveTemplates env st))). \<exists>p \<in> set (xs @ ys).
        (\<exists>v vs. src_tiles (snd p) = Some (v # vs) \<and> JString u \<in> set (v # vs)) \<or>
        (\<exists>t. tilejsonCache (snd (resolveTemplates env st)) (fst p) = Some t \<and> JString u \<in> set t)) \<and>
     (\<forall>p \<in> set (xs @ ys). \<forall>v vs u. src_tiles (snd p) = Some (v # vs) \<and> JString u \<in> set (v # vs) \<longrightarrow>
        u \<in> set (templates (snd (resolveTemplates env st)))) \<and>
     (\<forall>p \<in> set (xs @ ys). \<forall>w t u.
        (src_tiles (snd p) = None \<or> src_tiles (snd p) = Some []) \<and> src_url (snd p) = Some w \<and>
        w \<noteq> [] \<and> tilejsonCache st (fst p) = Some t \<and> JString u \<in> set t \<longrightarrow>
        u \<in> set (templates (snd (resolveTemplates env st)))) \<and>
     (\<forall>p \<in> set (xs @ ys). \<forall>w a u.
        (src_tiles (snd p) = None \<or> src_tiles (snd p) = Some []) \<and> src_url (snd p) = Some w \<and>
        w \<noteq> [] \<and> tilejsonCache st (fst p) = None \<and>
        fetchTileJSON (net env) w = Inr (JsonValue (Some a)) \<and> JString u \<in> set a \<longrightarrow>
        u \<in> set (templates (snd (resolveTemplates env st))))"
proof (intro impI)
  assume h: "getStyle env = Some (xs @ (sid, src) # ys) \<and> distinct (map fst (xs @ (sid, src) # ys)) \<and>
   tilejsonCache st sid = None \<and> (src_tiles src = None \<or> src_tiles src = Some []) \<and>
   src_url src = Some url \<and> url \<noteq> [] \<and>
   (net env url = Rejected \<or> net env url = Response False status body)"
  then have style: "getStyle env = Some (xs @ (sid, src) # ys)"
    and d: "distinct (map fst (xs @ (sid, src) # ys))"
    and miss: "tilejsonCache st sid = None"
    and nt: "src_tiles src = None \<or> src_tiles src = Some []"
    and url: "src_url src = Some url" "url \<noteq> []"
    and down: "net env url = Rejected \<or> net env url = Response False status body"
    by blast+
  from fetchTileJSON_fails [OF down] obtain e where e: "fetchTileJSON (net env) url = Inl e" ..
  from d have fresh: "sid \<notin> fst ` set xs" by auto
  from style obtain tm c new where
    r: "resolve_loop (net env) (xs @ (sid, src) # ys) ([], tilejsonCache st, []) = (tm, c, new)"
    and res: "resolveTemplates env st = (new, st\<lparr>tilejsonCache := c, templates := string_entries tm\<rparr>)"
    by (rule resolveTemplates_loop)
  from resolve_loop_failed_source [OF nt url miss fresh e r] obtain new' where
    r': "resolve_loop (net env) (xs @ ys) ([], tilejsonCache st, []) = (tm, c, new')"
    and looked: "(sid, url) \<in> set new"
    by blast
  have res': "resolveTemplates (env\<lparr>getStyle := Some (xs @ ys)\<rparr>) st =
      (new', st\<lparr>tilejsonCache := c, templates := string_entries tm\<rparr>)"
    using r' by (simp add: resolveTemplates_def)
  have tmpl: "set (templates (snd (resolveTemplates env st))) = {u. JString u \<in> set tm}"
    by (simp add: res set_string_entries)
  have cache: "tilejsonCache (snd (resolveTemplates env st)) = c"
    by (simp add: res)
  have "(sid, url) \<in> set (fst (resolveTemplates env st))" using looked by (simp add: res)
  moreover have "\<forall>ta. fetchTileJSON (net env) (snd (sid, url)) \<noteq> Inr (JsonValue ta)"
    using e by simp
  ultimately have "tilejsonCache (snd (resolveTemplates env st)) (fst (sid, url)) = None"
    using style d by (intro resolveTemplates_failed_stores_nothing) auto
  then have unstored: "c sid = None" by (simp add: cache)
  have others: "(\<forall>v vs. src_tiles (snd p) = Some (v # vs) \<longrightarrow> set (v # vs) \<subseteq> set tm) \<and>
         (\<forall>w t. (src_tiles (snd p) = None \<or> src_tiles (snd p) = Some []) \<and> src_url (snd p) = Some w \<and> w \<noteq> [] \<and>
                tilejsonCache st (fst p) = Some t \<longrightarrow> set t \<subseteq> set tm) \<and>
         (\<forall>w a. (src_tiles (snd p) = None \<or> src_tiles (snd p) = Some []) \<and> src_url (snd p) = Some w \<and> w \<noteq> [] \<and>
                tilejsonCache st (fst p) = None \<and> fetchTileJSON (net env) w = Inr (JsonValue (Some a)) \<longrightarrow> set a \<subseteq> set tm)"
    if "p \<in> set (xs @ ys)" for p
  proof -
    from that have "(fst p, snd p) \<in> set (xs @ (sid, src) # ys)" by auto
    from resolve_loop_contains [OF r this d] show ?thesis .
  qed
  have origin: "\<exists>p \<in> set (xs @ ys).
        (\<exists>v vs. src_tiles (snd p) = Some (v # vs) \<and> JString u \<in> set (v # vs)) \<or>
        (\<exists>t. c (fst p) = Some t \<and> JString u \<in> set t)"
    if "JString u \<in> set tm" for u
  proof -
    from resolve_loop_origin [OF r that]
    have "\<exists>p \<in> set (xs @ (sid, src) # ys).
        (\<exists>w ws. src_tiles (snd p) = Some (w # ws) \<and> JString u \<in> set (w # ws)) \<or>
        (\<exists>t. c (fst p) = Some t \<and> JString u \<in> set t)"
      by simp
    then obtain p where
      p: "p \<in> set (xs @ (sid, src) # ys)"
      and from_p: "(\<exists>w ws. src_tiles (snd p) = Some (w # ws) \<and> JString u \<in> set (w # ws)) \<or>
                          (\<exists>t. c (fst p) = Some t \<and> JString u \<in> set t)"
      by blast
    have "p \<noteq> (sid, src)"
    proof
      assume "p = (sid, src)"
      with from_p have "(\<exists>w ws. src_tiles src = Some (w # ws)) \<or> (\<exists>t. c sid = Some t)"
        by auto
      moreover from nt have "\<not> (\<exists>w ws. src_tiles src = Some (w # ws))" by auto
      moreover from unstored have "\<not> (\<exists>t. c sid = Some t)" by simp
      ultimately show False by blast
    qed
    with p have "p \<in> set (xs @ ys)" by auto
    with from_p show ?thesis by blast
  qed
  show "(sid, url) \<in> set (fst (resolveTemplates env st)) \<and>
     tilejsonCache (snd (resolveTemplates env st)) sid = None \<and>
     templates (snd (resolveTemplates env st)) =
       templates (snd (resolveTemplates (env\<lparr>getStyle := Some (xs @ ys)\<rparr>) st)) \<and>
     tilejsonCache (snd (resolveTemplates env st)) =
       tilejsonCache (snd (resolveTemplates (env\<lparr>getStyle := Some (xs @ ys)\<rparr>) st)) \<and>
     (\<forall>u \<in> set (templates (snd (resolveTemplates env st))). \<exists>p \<in> set (xs @ ys).
        (\<exists>v vs. src_tiles (snd p) = Some (v # vs) \<and> JString u \<in> set (v # vs)) \<or>
        (\<exists>t. tilejsonCache (snd (resolveTemplates env st)) (fst p) = Some t \<and> JString u \<in> set t)) \<and>
     (\<forall>p \<in> set (xs @ ys). \<forall>v vs u. src_tiles (snd p) = Some (v # vs) \<and> JString u \<in> set (v # vs) \<longrightarrow>
        u \<in> set (templates (snd (resolveTemplates env st)))) \<and>
     (\<forall>p \<in> set (xs @ ys). \<forall>w t u.
        (src_tiles (snd p) = None \<or> src_tiles (snd p) = Some []) \<and> src_url (snd p) = Some w \<and>
        w \<noteq> [] \<and> tilejsonCache st (fst p) = Some t \<and> JString u \<in> set t \<longrightarrow>
        u \<in> set (templates (snd (resolveTemplates env st)))) \<and>
     (\<forall>p \<in> set (xs @ ys). \<forall>w a u.
        (src_tiles (snd p) = None \<or> src_tiles (snd p) = Some []) \<and> src_url (snd p) = Some w \<and>
        w \<noteq> [] \<and> tilejsonCache st (fst p) = None \<and>
        fetchTileJSON (net env) w = Inr (JsonValue (Some a)) \<and> JString u \<in> set a \<longrightarrow>
        u \<in> set (templates (snd (resolveTemplates env st))))"
  proof (intro conjI ballI allI impI)
    show "(sid, url) \<in> set (fst (resolveTemplates env st))" using looked by (simp add: res)
    show "tilejsonCache (snd (resolveTemplates env st)) sid = None"
      using unstored by (simp add: cache)
    show "templates (snd (resolveTemplates env st)) =
       templates (snd (resolveTemplates (env\<lparr>getStyle := Some (xs @ ys)\<rparr>) st))"
      by (simp add: res res')
    show "tilejsonCache (snd (resolveTemplates env st)) =
       tilejsonCache (snd (resolveTemplates (env\<lparr>getStyle := Some (xs @ ys)\<rparr>) st))"
      by (simp add: res res')
  next
    fix u assume "u \<in> set (templates (snd (resolveTemplates env st)))"
    then have "JString u \<in> set tm" by (simp add: tmpl)
    from origin [OF this]
    show "\<exists>p \<in> set (xs @ ys).
        (\<exists>v vs. src_tiles (snd p) = Some (v # vs) \<and> JString u \<in> set (v # vs)) \<or>
        (\<exists>t. tilejsonCache (snd (resolveTemplates env st)) (fst p) = Some t \<and> JString u \<in> set t)"
      by (simp add: cache)
  next
    fix p v vs u
    assume "p \<in> set (xs @ ys)" "src_tiles (snd p) = Some (v # vs) \<and> JString u \<in> set (v # vs)"
    with others [of p] have "JString u \<in> set tm" by blast
    then show "u \<in> set (templates (snd (resolveTemplates env st)))" by (simp add: tmpl)
  next
    fix p w t u
    assume "p \<in> set (xs @ ys)"
      "(src_tiles (snd p) = None \<or> src_tiles (snd p) = Some []) \<and> src_url (snd p) = Some w \<and>
        w \<noteq> [] \<and> tilejsonCache st (fst p) = Some t \<and> JString u \<in> set t"
    with others [of p] have "JString u \<in> set tm" by blast
    then show "u \<in> set (templates (snd (resolveTemplates env st)))" by (simp add: tmpl)
  next
    fix p w a u
    assume "p \<in> set (xs @ ys)"
      "(src_tiles (snd p) = None \<or> src_tiles (snd p) = Some []) \<and> src_url (snd p) = Some w \<and>
        w \<noteq> [] \<and> tilejsonCache st (fst p) = None \<and>
        fetchTileJSON (net env) w = Inr (JsonValue (Some a)) \<and> JString u \<in> set a"
    with others [of p] have "JString u \<in> set tm" by blast
    then show "u \<in> set (templates (snd (resolveTemplates env st)))" by (simp add: tmpl)
  qed
qed

text \<open>
  C9 at a concrete input. On the small map the descriptor of \<open>a\<close> is unreachable
  (the request is rejected): nothing is stored for \<open>a\<close>, and the template
  \<open>{z}/{x}/{y}\<close> that the descriptor of \<open>b\<close> returns is the resolver's template list.
\<close>

theorem failed_lookup_isolated_witness:
  "getStyle demo_env = Some ([] @ (''a'', \<lparr>src_tiles = None, src_url = Some ''a.json''\<rparr>) #
       [(''b'', \<lparr>src_tiles = None, src_url = Some ''b.json''\<rparr>)]) \<and>
   net demo_env ''a.json'' = Rejected \<and>
   (''a'', ''a.json'') \<in> set (fst (resolveTemplates demo_env constructed)) \<and>
   tilejsonCache (snd (resolveTemplates demo_env constructed)) ''a'' = None \<and>
   templates (snd (resolveTemplates demo_env constructed)) =
     templates (snd (resolveTemplates
       (demo_env\<lparr>getStyle := Some ([] @ [(''b'', \<lparr>src_tiles = None, src_url = Some ''b.json''\<rparr>)])\<rparr>)
       constructed)) \<and>
   fetchTileJSON (net demo_env) ''b.json'' = Inr (JsonValue (Some [JString ''{z}/{x}/{y}''])) \<and>
   ''{z}/{x}/{y}'' \<in> set (templates (snd (resolveTemplates demo_env constructed))) \<and>
   templates (snd (resolveTemplates demo_env constructed)) = [''{z}/{x}/{y}'']"
proof -
  let ?a = "\<lparr>src_tiles = None, src_url = Some ''a.json''\<rparr>"
  let ?b = "\<lparr>src_tiles = None, src_url = Some ''b.json''\<rparr>"
  have style: "getStyle demo_env = Some ([] @ (''a'', ?a) # [(''b'', ?b)])"
    by (simp add: demo_env_def)
  have down: "net demo_env ''a.json'' = Rejected"
    by (simp add: demo_env_def)
  have fb: "fetchTileJSON (net demo_env) ''b.json'' = Inr (JsonValue (Some [JString ''{z}/{x}/{y}'']))"
    by (simp add: demo_env_def fetchTileJSON_def)
  have all: "templates (snd (resolveTemplates demo_env constructed)) = [''{z}/{x}/{y}'']"
    by code_simp
  have h: "getStyle demo_env = Some ([] @ (''a'', ?a) # [(''b'', ?b)]) \<and>
      distinct (map fst ([] @ (''a'', ?a) # [(''b'', ?b)])) \<and>
      tilejsonCache constructed ''a'' = None \<and> (src_tiles ?a = None \<or> src_tiles ?a = Some []) \<and>
      src_url ?a = Some ''a.json'' \<and> ''a.json'' \<noteq> [] \<and>
      (net demo_env ''a.json'' = Rejected \<or> net demo_env ''a.json'' = Response False 0 None)"
    using style down by (simp add: constructed_def)
  have b: "(''b'', ?b) \<in> set ([] @ [(''b'', ?b)]) \<and>
      (src_tiles (snd (''b'', ?b)) = None \<or> src_tiles (snd (''b'', ?b)) = Some []) \<and>
      src_url (snd (''b'', ?b)) = Some ''b.json'' \<and> ''b.json'' \<noteq> [] \<and>
      tilejsonCache constructed (fst (''b'', ?b)) = None \<and>
      fetchTileJSON (net demo_env) ''b.json'' = Inr (JsonValue (Some [JString ''{z}/{x}/{y}''])) \<and>
      JString ''{z}/{x}/{y}'' \<in> set [JString ''{z}/{x}/{y}'']"
    using fb by (simp add: constructed_def)
  note inst = failed_lookup_isolated [of demo_env "[]" "''a''" ?a "[(''b'', ?b)]" constructed
      "''a.json''" 0 None]
  from inst h have "(''a'', ''a.json'') \<in> set (fst (resolveTemplates demo_env constructed)) \<and>
      tilejsonCache (snd (resolveTemplates demo_env constructed)) ''a'' = None"
    by blast
  moreover from inst h have "templates (snd (resolveTemplates demo_env constructed)) =
     templates (snd (resolveTemplates (demo_env\<lparr>getStyle := Some ([] @ [(''b'', ?b)])\<rparr>) constructed))"
    by blast
  moreover from inst h b
  have "''{z}/{x}/{y}'' \<in> set (templates (snd (resolveTemplates demo_env constructed)))"
    by blast
  ultimately show ?thesis using style down fb all by blast
qed

text \<open>
  Template lists without a string, through a resolution and the next one.
\<close>

lemma string_entries_append: "string_entries (a @ b) = string_entries a @ string_entries b"
  by (induction a rule: string_entries.induct) auto

text \<open>
  The branches of \<open>resolve_source\<close>, each under its condition.
\<close>

lemma resolve_source_explicit:
  "src_tiles src = Some (v # vs) \<Longrightarrow>
     resolve_source nt sid src (tm, c, lk) = (tm @ (v # vs), c, lk)"
  by (simp add: resolve_source_def)

lemma resolve_source_skipped:
  "src_tiles src = None \<or> src_tiles src = Some [] \<Longrightarrow>
   src_url src = None \<or> src_url src = Some [] \<Longrightarrow>
     resolve_source nt sid src (tm, c, lk) = (tm, c, lk)"
  by (auto simp: resolve_source_def)

lemma resolve_source_cached:
  "src_tiles src = None \<or> src_tiles src = Some [] \<Longrightarrow> src_url src = Some url \<Longrightarrow> url \<noteq> [] \<Longrightarrow>
   c sid = Some t \<Longrightarrow>
     resolve_source nt sid src (tm, c, lk) = (tm @ t, c, lk)"
  by (auto simp: resolve_source_def)

lemma resolve_source_stored:
  "src_tiles src = None \<or> src_tiles src = Some [] \<Longrightarrow> src_url src = Some url \<Longrightarrow> url \<noteq> [] \<Longrightarrow>
   c sid = None \<Longrightarrow> fetchTileJSON nt url = Inr (JsonValue ta) \<Longrightarrow>
     resolve_source nt sid src (tm, c, lk) =
       (tm @ (case ta of Some a \<Rightarrow> a | None \<Rightarrow> []),
        c(sid \<mapsto> (case ta of Some a \<Rightarrow> a | None \<Rightarrow> [])), lk @ [(sid, url)])"
  by (auto simp: resolve_source_def Let_def)

lemma resolve_source_unanswered:
  "src_tiles src = None \<or> src_tiles src = Some [] \<Longrightarrow> src_url src = Some url \<Longrightarrow> url \<noteq> [] \<Longrightarrow>
   c sid = None \<Longrightarrow> \<forall>ta. fetchTileJSON nt url \<noteq> Inr (JsonValue ta) \<Longrightarrow>
     resolve_source nt sid src (tm, c, lk) = (tm, c, lk @ [(sid, url)])"
  by (auto simp: resolve_source_def split: sum.splits tilejson.splits)

lemma source_kinds:
  obtains (explicit) v vs where "src_tiles src = Some (v # vs)"
    | (local) "src_tiles src = None \<or> src_tiles src = Some []"
        "src_url src = None \<or> src_url src = Some []"
    | (remote) url where "src_tiles src = None \<or> src_tiles src = Some []"
        "src_url src = Some url" "url \<noteq> []"
proof (cases "src_tiles src")
  case None
  then show thesis by (cases "src_url src") (auto intro: local remote)
next
  case (Some a)
  show thesis
  proof (cases a)
    case Nil
    with Some show thesis by (cases "src_url src") (auto intro: local remote)
  next
    case (Cons v vs)
    with Some show thesis by (auto intro: explicit)
  qed
qed

text \<open>
  Two resolutions side by side, the second from a cache \<open>d\<close> that holds every
  identifier of the first one's cache \<open>c\<close> and, where it differs from \<open>c\<close>, only lists
  without templates: one source keeps this relation, and leaves the second template list
  empty when it leaves the first one empty.
\<close>

lemma resolve_source_barren_again:
  assumes s: "resolve_source nt sid src (tm, c, lk) = (tm1, c1, lk1)"
    and s2: "resolve_source nt sid src (um, d, lu) = (um1, d1, lu1)"
    and b1: "string_entries tm1 = []"
    and dom: "\<forall>k. c k \<noteq> None \<longrightarrow> d k \<noteq> None"
    and fresh: "\<forall>k t. d k = Some t \<longrightarrow> c k = Some t \<or> string_entries t = []"
    and bu: "string_entries um = []"
  shows "(\<forall>k. c1 k \<noteq> None \<longrightarrow> d1 k \<noteq> None) \<and>
      (\<forall>k t. d1 k = Some t \<longrightarrow> c1 k = Some t \<or> string_entries t = []) \<and>
      string_entries um1 = []"
proof (cases src rule: source_kinds)
  case (explicit v vs)
  from s s2 have "tm1 = tm @ (v # vs)" "c1 = c" "um1 = um @ (v # vs)" "d1 = d"
    by (simp_all add: resolve_source_explicit [OF explicit])
  with b1 dom fresh bu show ?thesis by (simp add: string_entries_append)
next
  case local
  from s s2 have "c1 = c" "um1 = um" "d1 = d"
    by (simp_all add: resolve_source_skipped [OF local])
  with dom fresh bu show ?thesis by simp
next
  case (remote url)
  show ?thesis
  proof (cases "c sid")
    case (Some t)
    with dom obtain t' where t': "d sid = Some t'" by fastforce
    from s have e: "tm1 = tm @ t" "c1 = c"
      by (simp_all add: resolve_source_cached [where c = c and sid = sid, OF remote Some])
    from s2 have u: "um1 = um @ t'" "d1 = d"
      by (simp_all add: resolve_source_cached [where c = d and sid = sid, OF remote t'])
    from fresh t' Some have "t' = t \<or> string_entries t' = []" by fastforce
    with e b1 have "string_entries t' = []" by (auto simp: string_entries_append)
    with e u dom fresh bu show ?thesis by (simp add: string_entries_append)
  next
    case None
    show ?thesis
    proof (cases "\<exists>ta. fetchTileJSON nt url = Inr (JsonValue ta)")
      case True
      then obtain ta where f: "fetchTileJSON nt url = Inr (JsonValue ta)" ..
      let ?t = "case ta of Some a \<Rightarrow> a | None \<Rightarrow> []"
      from s have e: "tm1 = tm @ ?t" "c1 = c(sid \<mapsto> ?t)"
        by (simp_all add: resolve_source_stored [where c = c and sid = sid, OF remote None f])
      with b1 have bt: "string_entries ?t = []" by (simp add: string_entries_append)
      show ?thesis
      proof (cases "d sid")
        case (Some t')
        from s2 have u: "um1 = um @ t'" "d1 = d"
          by (simp_all add: resolve_source_cached [where c = d and sid = sid, OF remote Some])
        from fresh Some None have bt': "string_entries t' = []" by fastforce
        have "\<forall>k. c1 k \<noteq> None \<longrightarrow> d1 k \<noteq> None" using e u dom Some by auto
        moreover have "\<forall>k t. d1 k = Some t \<longrightarrow> c1 k = Some t \<or> string_entries t = []"
          using e u fresh Some bt' by auto
        moreover have "string_entries um1 = []" using u bu bt' by (simp add: string_entries_append)
        ultimately show ?thesis by blast
      next
        case dn: None
        from s2 have u: "um1 = um @ ?t" "d1 = d(sid \<mapsto> ?t)"
          by (simp_all add: resolve_source_stored [where c = d and sid = sid, OF remote dn f])
        have "\<forall>k. c1 k \<noteq> None \<longrightarrow> d1 k \<noteq> None" using e u dom by auto
        moreover have "\<forall>k t. d1 k = Some t \<longrightarrow> c1 k = Some t \<or> string_entries t = []"
          using e u fresh by auto
        moreover have "string_entries um1 = []" using u bu bt by (simp add: string_entries_append)
        ultimately show ?thesis by blast
      qed
    next
      case False
      then have f: "\<forall>ta. fetchTileJSON nt url \<noteq> Inr (JsonValue ta)" by blast
      from s have e: "tm1 = tm" "c1 = c"
        by (simp_all add: resolve_source_unanswered [where c = c and sid = sid, OF remote None f])
      show ?thesis
      proof (cases "d sid")
        case (Some t')
        from s2 have u: "um1 = um @ t'" "d1 = d"
          by (simp_all add: resolve_source_cached [where c = d and sid = sid, OF remote Some])
        from fresh Some None have "string_entries t' = []" by fastforce
        with e u dom fresh bu show ?thesis by (simp add: string_entries_append)
      next
        case dn: None
        from s2 have u: "um1 = um" "d1 = d"
          by (simp_all add: resolve_source_unanswered [where c = d and sid = sid, OF remote dn f])
        with e dom fresh bu show ?thesis by simp
      qed
    qed
  qed
qed

lemma resolve_loop_prefix:
  "resolve_loop nt srcs (tm, c, lk) = (tm', c', lk') \<Longrightarrow> string_entries tm' = [] \<Longrightarrow>
     string_entries tm = []"
  using resolve_loop_inv [of nt srcs tm c lk tm' c' lk']
  by (auto simp: string_entries_append)

lemma resolve_loop_barren_again:
  assumes "resolve_loop nt srcs (tm, c, lk) = (tm', c', lk')" "string_entries tm' = []"
    and "\<forall>k. c k \<noteq> None \<longrightarrow> d k \<noteq> None"
    and "\<forall>k t. d k = Some t \<longrightarrow> c k = Some t \<or> string_entries t = []"
    and "string_entries um = []"
    and "resolve_loop nt srcs (um, d, lu) = (um', d', lu')"
  shows "string_entries um' = []"
  using assms
proof (induction srcs arbitrary: tm c lk um d lu)
  case Nil
  then show ?case by simp
next
  case (Cons a rest)
  obtain sid src where a: "a = (sid, src)" by (cases a)
  obtain tm1 c1 lk1 where s: "resolve_source nt sid src (tm, c, lk) = (tm1, c1, lk1)"
    by (cases "resolve_source nt sid src (tm, c, lk)")
  obtain um1 d1 lu1 where s2: "resolve_source nt sid src (um, d, lu) = (um1, d1, lu1)"
    by (cases "resolve_source nt sid src (um, d, lu)")
  from Cons.prems(1) s have r: "resolve_loop nt rest (tm1, c1, lk1) = (tm', c', lk')"
    by (simp add: a)
  from Cons.prems(6) s2 have r2: "resolve_loop nt rest (um1, d1, lu1) = (um', d', lu')"
    by (simp add: a)
  from resolve_loop_prefix [OF r Cons.prems(2)] have b1: "string_entries tm1 = []" .
  from resolve_source_barren_again [OF s s2 b1 Cons.prems(3) Cons.prems(4) Cons.prems(5)]
  have dom1: "\<forall>k. c1 k \<noteq> None \<longrightarrow> d1 k \<noteq> None"
    and fresh1: "\<forall>k t. d1 k = Some t \<longrightarrow> c1 k = Some t \<or> string_entries t = []"
    and bu1: "string_entries um1 = []"
    by blast+
  from Cons.IH [OF r Cons.prems(2) dom1 fresh1 bu1 r2] show ?case .
qed

text \<open>
  A resolution that ends without templates stores only lists without templates.
\<close>

lemma resolve_loop_barren:
  assumes "resolve_loop nt srcs (tm, c, lk) = (tm', c', lk')" "string_entries tm' = []"
  shows "\<forall>k t. c' k = Some t \<longrightarrow> c k = Some t \<or> string_entries t = []"
  using assms
proof (induction srcs arbitrary: tm c lk)
  case Nil
  then show ?case by auto
next
  case (Cons a rest)
  obtain sid src where a: "a = (sid, src)" by (cases a)
  obtain tm1 c1 lk1 where s: "resolve_source nt sid src (tm, c, lk) = (tm1, c1, lk1)"
    by (cases "resolve_source nt sid src (tm, c, lk)")
  with Cons.prems have r: "resolve_loop nt rest (tm1, c1, lk1) = (tm', c', lk')"
    by (simp add: a)
  from Cons.IH [OF r Cons.prems(2)]
  have new1: "\<forall>k t. c' k = Some t \<longrightarrow> c1 k = Some t \<or> string_entries t = []" .
  from resolve_loop_prefix [OF r Cons.prems(2)] have b1: "string_entries tm1 = []" .
  have "c1 = c \<or> (\<exists>t. c1 = c(sid \<mapsto> t) \<and> string_entries t = [])"
  proof (cases src rule: source_kinds)
    case (explicit v vs)
    with s show ?thesis by (simp add: resolve_source_explicit)
  next
    case local
    with s show ?thesis by (simp add: resolve_source_skipped)
  next
    case (remote url)
    show ?thesis
    proof (cases "c sid")
      case (Some t)
      with s show ?thesis by (simp add: resolve_source_cached [where c = c and sid = sid, OF remote])
    next
      case None
      show ?thesis
      proof (cases "\<exists>ta. fetchTileJSON nt url = Inr (JsonValue ta)")
        case True
        then obtain ta where f: "fetchTileJSON nt url = Inr (JsonValue ta)" ..
        from s have "tm1 = tm @ (case ta of Some a \<Rightarrow> a | None \<Rightarrow> [])"
          "c1 = c(sid \<mapsto> (case ta of Some a \<Rightarrow> a | None \<Rightarrow> []))"
          by (simp_all add: resolve_source_stored [where c = c and sid = sid, OF remote None f])
        with b1 show ?thesis by (auto simp: string_entries_append)
      next
        case False
        then have "\<forall>ta. fetchTileJSON nt url \<noteq> Inr (JsonValue ta)" by blast
        with s show ?thesis by (simp add: resolve_source_unanswered [where c = c and sid = sid, OF remote None])
      qed
    qed
  qed
  then have upd: "c1 k = Some t \<Longrightarrow> c k = Some t \<or> string_entries t = []" for k t
    by (cases "k = sid") auto
  show ?case
  proof (intro allI impI)
    fix k t assume "c' k = Some t"
    with new1 have "c1 k = Some t \<or> string_entries t = []" by blast
    with upd [of k t] show "c k = Some t \<or> string_entries t = []" by blast
  qed
qed

lemma resolveTemplates_barren_again:
  assumes "templates (snd (resolveTemplates env st)) = []" "templates st = []"
  shows "templates (snd (resolveTemplates env (snd (resolveTemplates env st)))) = []"
proof (cases "getStyle env")
  case None
  with assms show ?thesis by (simp add: resolveTemplates_def)
next
  case (Some srcs)
  then obtain tm c new where
    r: "resolve_loop (net env) srcs ([], tilejsonCache st, []) = (tm, c, new)"
    and e: "resolveTemplates env st = (new, st\<lparr>tilejsonCache := c, templates := string_entries tm\<rparr>)"
    by (rule resolveTemplates_loop)
  let ?st1 = "st\<lparr>tilejsonCache := c, templates := string_entries tm\<rparr>"
  from Some obtain um d new2 where
    r2: "resolve_loop (net env) srcs ([], tilejsonCache ?st1, []) = (um, d, new2)"
    and e2: "resolveTemplates env ?st1 = (new2, ?st1\<lparr>tilejsonCache := d, templates := string_entries um\<rparr>)"
    by (rule resolveTemplates_loop)
  from assms(1) e have b: "string_entries tm = []" by simp
  from resolve_loop_inv [OF r] have dom: "\<forall>k. tilejsonCache st k \<noteq> None \<longrightarrow> c k \<noteq> None"
    by fastforce
  from resolve_loop_barren [OF r b]
  have fresh: "\<forall>k t. c k = Some t \<longrightarrow> tilejsonCache st k = Some t \<or> string_entries t = []" .
  from r2 have r2': "resolve_loop (net env) srcs ([], c, []) = (um, d, new2)" by simp
  have "string_entries um = []"
    using r b dom fresh _ r2' by (rule resolve_loop_barren_again) simp
  then show ?thesis by (simp add: e e2)
qed

section \<open>Issuing the fetches\<close>

lemma issue_fetches_props:
  "issue_fetches us infl = (fs, infl') \<Longrightarrow>
     distinct fs \<and> set fs \<inter> infl = {} \<and> set fs \<subseteq> set us \<and> infl' = infl \<union> set fs"
proof (induction us arbitrary: infl fs infl')
  case Nil
  then show ?case by simp
next
  case (Cons u us)
  show ?case
  proof (cases "u \<in> infl")
    case True
    with Cons.prems have "issue_fetches us infl = (fs, infl')" by simp
    from Cons.IH [OF this] show ?thesis by auto
  next
    case False
    obtain gs i where r: "issue_fetches us (insert u infl) = (gs, i)"
      by (cases "issue_fetches us (insert u infl)")
    with False Cons.prems have fs: "fs = u # gs" and i: "infl' = i" by simp_all
    from Cons.IH [OF r] show ?thesis using False fs i by auto
  qed
qed

lemma issue_fetches_append:
  "issue_fetches (xs @ ys) infl =
     (case issue_fetches xs infl of (f1, i1) \<Rightarrow>
        (case issue_fetches ys i1 of (f2, i2) \<Rightarrow> (f1 @ f2, i2)))"
  by (induction xs arbitrary: infl) (auto split: prod.splits)

lemma issue_fetches_member:
  "issue_fetches us infl = (fs, infl') \<Longrightarrow> set us \<subseteq> infl'"
proof (induction us arbitrary: infl fs infl')
  case Nil
  then show ?case by simp
next
  case (Cons u us)
  show ?case
  proof (cases "u \<in> infl")
    case True
    with Cons.prems have r: "issue_fetches us infl = (fs, infl')" by simp
    from issue_fetches_props [OF r] True Cons.IH [OF r] show ?thesis by auto
  next
    case False
    obtain gs i where r: "issue_fetches us (insert u infl) = (gs, i)"
      by (cases "issue_fetches us (insert u infl)")
    with False Cons.prems have i: "infl' = i" by simp
    from issue_fetches_props [OF r] Cons.IH [OF r] show ?thesis using i by auto
  qed
qed

lemma issue_fetches_all_inflight:
  "set us \<subseteq> infl \<Longrightarrow> issue_fetches us infl = ([], infl)"
  by (induction us) auto

lemma length_issue_fetches: "length (fst (issue_fetches us infl)) \<le> length us"
proof -
  obtain fs i where r: "issue_fetches us infl = (fs, i)"
    by (cases "issue_fetches us infl")
  from issue_fetches_props [OF r] have d: "distinct fs" and s: "set fs \<subseteq> set us" by simp_all
  have "length fs = card (set fs)" using d by (simp add: distinct_card)
  also have "\<dots> \<le> card (set us)" using s by (simp add: card_mono)
  also have "\<dots> \<le> length us" by (rule card_length)
  finally show ?thesis using r by simp
qed

lemma resolveTemplates_inflight: "inflight (snd (resolveTemplates env st)) = inflight st"
  by (simp add: resolveTemplates_def split: option.splits prod.splits)

text \<open>
  The in-flight set in which the fetches of a run are issued, and the list they are taken from.
\<close>

lemma prefetchNow_cases:
  obtains (quiet) "fetches (prefetchNow ops env st) = []"
      "inflight (after (prefetchNow ops env st)) = inflight st"
    | (issued) tmpls where "tmpls \<noteq> []" "templates (after (prefetchNow ops env st)) = tmpls"
      "issue_fetches (prefetch_list ops env tmpls) (inflight st) =
         (fetches (prefetchNow ops env st), inflight (after (prefetchNow ops env st)))"
proof -
  define res where "res = (if templates st = [] then resolveTemplates env st else ([], st))"
  have infl: "inflight (snd res) = inflight st"
    by (simp add: res_def resolveTemplates_inflight)
  show thesis
  proof (cases "templates (snd res) = []")
    case True
    then have "fetches (prefetchNow ops env st) = []"
      "inflight (after (prefetchNow ops env st)) = inflight st"
      using infl by (simp_all add: prefetchNow_def Let_def res_def [symmetric])
    then show thesis by (rule quiet)
  next
    case False
    obtain fs i where r: "issue_fetches (prefetch_list ops env (templates (snd res))) (inflight (snd res)) = (fs, i)"
      by (cases "issue_fetches (prefetch_list ops env (templates (snd res))) (inflight (snd res))")
    with False have "prefetchNow ops env st = \<lparr>lookups = fst res, fetches = fs, after = (snd res)\<lparr>inflight := i\<rparr>\<rparr>"
      by (simp add: prefetchNow_def Let_def res_def [symmetric])
    with r infl False show thesis by (intro issued [of "templates (snd res)"]) simp_all
  qed
qed

lemma prefetchNow_nonempty:
  "templates st \<noteq> [] \<Longrightarrow>
     prefetchNow ops env st =
       (case issue_fetches (prefetch_list ops env (templates st)) (inflight st) of
          (fs, i) \<Rightarrow> \<lparr>lookups = [], fetches = fs, after = st\<lparr>inflight := i\<rparr>\<rparr>)"
  by (simp add: prefetchNow_def Let_def)

lemma prefetchNow_settled:
  assumes "templates st \<noteq> []" "set (prefetch_list ops env (templates st)) \<subseteq> inflight st"
  shows "prefetchNow ops env st = \<lparr>lookups = [], fetches = [], after = st\<rparr>"
  using assms by (simp add: prefetchNow_nonempty issue_fetches_all_inflight)

lemma prefetchNow_after:
  obtains (quiet) "templates (after (prefetchNow ops env st)) = []"
    | (issued) "templates (after (prefetchNow ops env st)) \<noteq> []"
      "issue_fetches (prefetch_list ops env (templates (after (prefetchNow ops env st)))) (inflight st) =
         (fetches (prefetchNow ops env st), inflight (after (prefetchNow ops env st)))"
proof -
  define res where "res = (if templates st = [] then resolveTemplates env st else ([], st))"
  have infl: "inflight (snd res) = inflight st"
    by (simp add: res_def resolveTemplates_inflight)
  show thesis
  proof (cases "templates (snd res) = []")
    case True
    then have "templates (after (prefetchNow ops env st)) = []"
      by (simp add: prefetchNow_def Let_def res_def [symmetric])
    then show thesis by (rule quiet)
  next
    case False
    obtain fs i where r: "issue_fetches (prefetch_list ops env (templates (snd res))) (inflight (snd res)) = (fs, i)"
      by (cases "issue_fetches (prefetch_list ops env (templates (snd res))) (inflight (snd res))")
    with False have "prefetchNow ops env st = \<lparr>lookups = fst res, fetches = fs, after = (snd res)\<lparr>inflight := i\<rparr>\<rparr>"
      by (simp add: prefetchNow_def Let_def res_def [symmetric])
    with r infl False show thesis by (intro issued) simp_all
  qed
qed

lemma prefetchNow_barren:
  assumes "templates st = []" "templates (snd (resolveTemplates env st)) = []"
  shows "prefetchNow ops env st =
     \<lparr>lookups = fst (resolveTemplates env st), fetches = [], after = snd (resolveTemplates env st)\<rparr>"
  using assms by (simp add: prefetchNow_def Let_def)

lemma length_js_slice0: "0 \<le> e \<Longrightarrow> int (length (js_slice0 xs e)) \<le> e"
  by (simp add: js_slice0_def)

text \<open>
  C2. In the loop that issues the fetches, when the URL \<open>u\<close> is reached with the
  in-flight set \<open>i1\<close>, a fetch of \<open>u\<close> is issued exactly when \<open>u\<close> is not in \<open>i1\<close>, and
  the rest of the loop runs with \<open>u\<close> in the in-flight set. Hence a URL in the in-flight
  set is fetched by no cycle and by no event, every URL fetched by a cycle is in the
  in-flight set after it, no URL is fetched twice by one cycle, and the settling of the
  fetch of \<open>u\<close> removes \<open>u\<close> from the in-flight set whether the fetch succeeded or
  failed.
\<close>

theorem inflight_guard:
  "issue_fetches (pre @ u # post) infl =
     (case issue_fetches pre infl of (f1, i1) \<Rightarrow>
        (case issue_fetches post (insert u i1) of (f2, i2) \<Rightarrow>
           (f1 @ (if u \<in> i1 then [] else [u]) @ f2, i2))) \<and>
   (u \<in> inflight st \<longrightarrow> u \<notin> set (fetches (prefetchNow ops env st))) \<and>
   (u \<in> inflight st \<longrightarrow> u \<notin> set (fetches (step ops env ev st))) \<and>
   (u \<in> set (fetches (prefetchNow ops env st)) \<longrightarrow> u \<in> inflight (after (prefetchNow ops env st))) \<and>
   distinct (fetches (prefetchNow ops env st)) \<and>
   inflight (fetch_settled True u st) = inflight st - {u} \<and>
   inflight (fetch_settled False u st) = inflight st - {u}"
proof (intro conjI impI)
  show "issue_fetches (pre @ u # post) infl =
     (case issue_fetches pre infl of (f1, i1) \<Rightarrow>
        (case issue_fetches post (insert u i1) of (f2, i2) \<Rightarrow>
           (f1 @ (if u \<in> i1 then [] else [u]) @ f2, i2)))"
    by (auto simp: issue_fetches_append insert_absorb split: prod.splits)
next
  have disj: "set (fetches (prefetchNow ops env s)) \<inter> inflight s = {}" for s
  proof (cases ops env s rule: prefetchNow_cases)
    case quiet
    then show ?thesis by simp
  next
    case (issued tmpls)
    from issue_fetches_props [OF issued(3)] show ?thesis by simp
  qed
  show a: "u \<notin> set (fetches (prefetchNow ops env st))" if "u \<in> inflight st"
    using disj [of st] that by blast
  show "u \<notin> set (fetches (step ops env ev st))" if "u \<in> inflight st"
  proof (cases ev)
    case TimerFired
    have "u \<notin> set (fetches (prefetchNow ops env (st\<lparr>debounceTimer := False\<rparr>)))"
      using disj [of "st\<lparr>debounceTimer := False\<rparr>"] that by auto
    with TimerFired show ?thesis by (simp add: step_def)
  qed (simp_all add: step_def split: prod.splits)
next
  assume "u \<in> set (fetches (prefetchNow ops env st))"
  then show "u \<in> inflight (after (prefetchNow ops env st))"
  proof (cases ops env st rule: prefetchNow_cases)
    case quiet
    assume "u \<in> set (fetches (prefetchNow ops env st))"
    with quiet show ?thesis by simp
  next
    case (issued tmpls)
    assume "u \<in> set (fetches (prefetchNow ops env st))"
    with issue_fetches_props [OF issued(3)] show ?thesis by auto
  qed
next
  show "distinct (fetches (prefetchNow ops env st))"
  proof (cases ops env st rule: prefetchNow_cases)
    case quiet
    then show ?thesis by simp
  next
    case (issued tmpls)
    from issue_fetches_props [OF issued(3)] show ?thesis by simp
  qed
qed (simp_all add: fetch_settled_def)

text \<open>
  C2 at a concrete input. The first cycle of the small map fetches \<open>1/1/0\<close>; while it is in flight a second
  cycle does not fetch it again; when its fetch fails it leaves the in-flight set.
\<close>

theorem inflight_guard_witness:
  "''1/1/0'' \<in> inflight (after (prefetchNow demo_opts demo_env constructed)) \<and>
   ''1/1/0'' \<notin> set (fetches (prefetchNow demo_opts demo_env (after (prefetchNow demo_opts demo_env constructed)))) \<and>
   ''1/1/0'' \<notin> set (fetches (step demo_opts demo_env TimerFired (after (prefetchNow demo_opts demo_env constructed)))) \<and>
   ''1/1/0'' \<in> set (fetches (prefetchNow demo_opts demo_env constructed)) \<and>
   ''1/1/0'' \<notin> inflight (fetch_settled False ''1/1/0'' (after (prefetchNow demo_opts demo_env constructed)))"
proof -
  have f: "''1/1/0'' \<in> set (fetches (prefetchNow demo_opts demo_env constructed))"
    by code_simp
  from inflight_guard [of "[]" "''1/1/0''" "[]" "{}" constructed demo_opts demo_env TimerFired] f
  have i: "''1/1/0'' \<in> inflight (after (prefetchNow demo_opts demo_env constructed))"
    by blast
  note inst = inflight_guard [of "[]" "''1/1/0''" "[]" "{}" "after (prefetchNow demo_opts demo_env constructed)"
      demo_opts demo_env TimerFired]
  from inst i
  have "''1/1/0'' \<notin> set (fetches (prefetchNow demo_opts demo_env (after (prefetchNow demo_opts demo_env constructed))))"
    by blast
  moreover from inst i
  have "''1/1/0'' \<notin> set (fetches (step demo_opts demo_env TimerFired (after (prefetchNow demo_opts demo_env constructed))))"
    by blast
  moreover from inst
  have "inflight (fetch_settled False ''1/1/0'' (after (prefetchNow demo_opts demo_env constructed))) =
      inflight (after (prefetchNow demo_opts demo_env constructed)) - {''1/1/0''}"
    by blast
  ultimately show ?thesis using f i by simp
qed

text \<open>
  C4. For a configured \<^verbatim>\<open>maxRequestsPerMove\<close> that is not negative, the list of a
  cycle is the first \<^verbatim>\<open>maxRequestsPerMove\<close> URLs that pass the predicate, the rest
  being dropped, and the cycle issues at most \<^verbatim>\<open>maxRequestsPerMove\<close> fetches.
\<close>

theorem maxRequestsPerMove_cap:
  "0 \<le> maxRequestsPerMove ops \<longrightarrow>
     prefetch_list ops env tmpls =
       take (nat (maxRequestsPerMove ops)) (filter (shouldPrefetch ops) (snd (snd (tile_sets ops env tmpls)))) \<and>
     int (length (prefetch_list ops env tmpls)) \<le> maxRequestsPerMove ops \<and>
     int (length (fetches (prefetchNow ops env st))) \<le> maxRequestsPerMove ops"
proof (intro impI conjI)
  assume m: "0 \<le> maxRequestsPerMove ops"
  then show "prefetch_list ops env tmpls =
       take (nat (maxRequestsPerMove ops)) (filter (shouldPrefetch ops) (snd (snd (tile_sets ops env tmpls))))"
    by (simp add: prefetch_list_def js_slice0_def)
  show cap: "int (length (prefetch_list ops env tmpls)) \<le> maxRequestsPerMove ops" for tmpls
    unfolding prefetch_list_def using m by (rule length_js_slice0)
  show "int (length (fetches (prefetchNow ops env st))) \<le> maxRequestsPerMove ops"
  proof (cases ops env st rule: prefetchNow_cases)
    case quiet
    with m show ?thesis by simp
  next
    case (issued tmpls)
    have "length (fetches (prefetchNow ops env st)) \<le> length (prefetch_list ops env tmpls)"
      using length_issue_fetches [of "prefetch_list ops env tmpls" "inflight st"] issued(3) by simp
    with cap [of tmpls] show ?thesis by linarith
  qed
qed

text \<open>
  C4 at a concrete input. The small map has five candidate URLs and a cap of three: three fetches are issued.
\<close>

theorem maxRequestsPerMove_cap_witness:
  "0 \<le> maxRequestsPerMove demo_opts \<and>
   length (filter (shouldPrefetch demo_opts) (snd (snd (tile_sets demo_opts demo_env [''{z}/{x}/{y}''])))) = 5 \<and>
   int (length (prefetch_list demo_opts demo_env [''{z}/{x}/{y}''])) \<le> maxRequestsPerMove demo_opts \<and>
   int (length (fetches (prefetchNow demo_opts demo_env constructed))) \<le> maxRequestsPerMove demo_opts \<and>
   length (fetches (prefetchNow demo_opts demo_env constructed)) = 3"
proof -
  have m: "0 \<le> maxRequestsPerMove demo_opts" by (simp add: demo_opts_def)
  have n: "length (filter (shouldPrefetch demo_opts) (snd (snd (tile_sets demo_opts demo_env [''{z}/{x}/{y}''])))) = 5"
    by code_simp
  have k: "length (fetches (prefetchNow demo_opts demo_env constructed)) = 3"
    by code_simp
  from maxRequestsPerMove_cap [of demo_opts demo_env "[''{z}/{x}/{y}'']" constructed] m
  have "int (length (prefetch_list demo_opts demo_env [''{z}/{x}/{y}''])) \<le> maxRequestsPerMove demo_opts \<and>
   int (length (fetches (prefetchNow demo_opts demo_env constructed))) \<le> maxRequestsPerMove demo_opts"
    by blast
  with m n k show ?thesis by blast
qed

text \<open>
  C3. Run a cycle, and run it again on the state the first run left, with the same
  map and options and before any fetch settles. The second run issues no fetch at all,
  so none for a URL that the first run left in flight, and it leaves the in-flight set
  and the template list as the first run left them. A cycle keeps a template list that
  is not empty. When the first run ends with templates, both runs take their fetches
  from the same list of candidate URLs, \<open>prefetch_list\<close> of these templates, and the
  second run changes nothing.
\<close>

theorem prefetchNow_twice:
  "fetches (prefetchNow ops env (after (prefetchNow ops env st))) = [] \<and>
   inflight (after (prefetchNow ops env (after (prefetchNow ops env st)))) =
     inflight (after (prefetchNow ops env st)) \<and>
   templates (after (prefetchNow ops env (after (prefetchNow ops env st)))) =
     templates (after (prefetchNow ops env st)) \<and>
   (templates st \<noteq> [] \<longrightarrow> templates (after (prefetchNow ops env st)) = templates st) \<and>
   (templates (after (prefetchNow ops env st)) \<noteq> [] \<longrightarrow>
      fetches (prefetchNow ops env st) =
        fst (issue_fetches (prefetch_list ops env (templates (after (prefetchNow ops env st)))) (inflight st)) \<and>
      fetches (prefetchNow ops env (after (prefetchNow ops env st))) =
        fst (issue_fetches (prefetch_list ops env (templates (after (prefetchNow ops env st))))
               (inflight (after (prefetchNow ops env st)))) \<and>
      prefetchNow ops env (after (prefetchNow ops env st)) =
        \<lparr>lookups = [], fetches = [], after = after (prefetchNow ops env st)\<rparr>)"
proof -
  let ?c1 = "prefetchNow ops env st"
  let ?c2 = "prefetchNow ops env (after ?c1)"
  have keep: "templates (after ?c1) = templates st" if "templates st \<noteq> []"
    using that by (simp add: prefetchNow_nonempty split: prod.splits)
  have full: "fetches ?c1 =
        fst (issue_fetches (prefetch_list ops env (templates (after ?c1))) (inflight st)) \<and>
      fetches ?c2 =
        fst (issue_fetches (prefetch_list ops env (templates (after ?c1))) (inflight (after ?c1))) \<and>
      ?c2 = \<lparr>lookups = [], fetches = [], after = after ?c1\<rparr>"
    if ne: "templates (after ?c1) \<noteq> []"
  proof -
    from ne have run1: "issue_fetches (prefetch_list ops env (templates (after ?c1))) (inflight st) =
         (fetches ?c1, inflight (after ?c1))"
      by (cases ops env st rule: prefetchNow_after) simp_all
    from issue_fetches_member [OF run1]
    have sub: "set (prefetch_list ops env (templates (after ?c1))) \<subseteq> inflight (after ?c1)" .
    from prefetchNow_settled [OF ne sub]
    have run2: "?c2 = \<lparr>lookups = [], fetches = [], after = after ?c1\<rparr>" .
    with run1 sub show ?thesis by (simp add: issue_fetches_all_inflight)
  qed
  have again: "fetches ?c2 = [] \<and> inflight (after ?c2) = inflight (after ?c1) \<and>
      templates (after ?c2) = templates (after ?c1)"
  proof (cases "templates (after ?c1) = []")
    case False
    from full [OF this] show ?thesis by simp
  next
    case True
    with keep have e: "templates st = []" by fastforce
    have b: "templates (snd (resolveTemplates env st)) = []"
    proof (rule ccontr)
      assume "templates (snd (resolveTemplates env st)) \<noteq> []"
      with e have "templates (after ?c1) \<noteq> []"
        by (simp add: prefetchNow_def Let_def split: prod.splits)
      with True show False by simp
    qed
    from prefetchNow_barren [OF e b]
    have c1: "?c1 = \<lparr>lookups = fst (resolveTemplates env st), fetches = [],
        after = snd (resolveTemplates env st)\<rparr>" .
    from resolveTemplates_barren_again [OF b e]
    have b2: "templates (snd (resolveTemplates env (snd (resolveTemplates env st)))) = []" .
    from prefetchNow_barren [OF b b2]
    have "prefetchNow ops env (snd (resolveTemplates env st)) =
      \<lparr>lookups = fst (resolveTemplates env (snd (resolveTemplates env st))), fetches = [],
       after = snd (resolveTemplates env (snd (resolveTemplates env st)))\<rparr>" .
    with c1 b b2 show ?thesis by (simp add: resolveTemplates_inflight)
  qed
  from again keep full show ?thesis by blast
qed

text \<open>
  C3 at a concrete input. Two cycles in a row on the small map: three fetches, then none.
\<close>

theorem prefetchNow_twice_witness:
  "templates (after (prefetchNow demo_opts demo_env constructed)) = [''{z}/{x}/{y}''] \<and>
   fetches (prefetchNow demo_opts demo_env constructed) = [''1/1/0'', ''1/1/1'', ''1/0/0''] \<and>
   fetches (prefetchNow demo_opts demo_env (after (prefetchNow demo_opts demo_env constructed))) = [] \<and>
   prefetchNow demo_opts demo_env (after (prefetchNow demo_opts demo_env constructed)) =
     \<lparr>lookups = [], fetches = [], after = after (prefetchNow demo_opts demo_env constructed)\<rparr> \<and>
   templates (after (prefetchNow demo_opts demo_env (after (prefetchNow demo_opts demo_env constructed)))) =
     templates (after (prefetchNow demo_opts demo_env constructed))"
proof -
  have t: "templates (after (prefetchNow demo_opts demo_env constructed)) = [''{z}/{x}/{y}'']"
    by code_simp
  have f: "fetches (prefetchNow demo_opts demo_env constructed) = [''1/1/0'', ''1/1/1'', ''1/0/0'']"
    by code_simp
  from t have ne: "templates (after (prefetchNow demo_opts demo_env constructed)) \<noteq> []" by simp
  from prefetchNow_twice [of demo_opts demo_env constructed] ne
  have r: "fetches (prefetchNow demo_opts demo_env (after (prefetchNow demo_opts demo_env constructed))) = [] \<and>
      prefetchNow demo_opts demo_env (after (prefetchNow demo_opts demo_env constructed)) =
        \<lparr>lookups = [], fetches = [], after = after (prefetchNow demo_opts demo_env constructed)\<rparr> \<and>
      templates (after (prefetchNow demo_opts demo_env (after (prefetchNow demo_opts demo_env constructed)))) =
        templates (after (prefetchNow demo_opts demo_env constructed))"
    by blast
  with t f show ?thesis by blast
qed

section \<open>The debug layers and the guard\<close>

lemma findIndex_lower: "- 1 \<le> findIndex p xs"
  by (induction xs) (auto simp: Let_def)

lemma findIndex_found: "x \<in> set xs \<Longrightarrow> p x \<Longrightarrow> findIndex p xs \<noteq> - 1"
proof (induction xs)
  case Nil
  then show ?case by simp
next
  case (Cons y ys)
  show ?case
  proof (cases "p y")
    case True
    then show ?thesis by simp
  next
    case False
    with Cons have "findIndex p ys \<noteq> - 1" by auto
    with False findIndex_lower [of p ys] show ?thesis by (simp add: Let_def)
  qed
qed

lemma findIndex_last:
  "xs \<noteq> [] \<Longrightarrow> findIndex p xs = int (length xs) - 1 \<Longrightarrow> p (last xs)"
proof (induction xs)
  case Nil
  then show ?case by simp
next
  case (Cons y ys)
  show ?case
  proof (cases "ys = []")
    case True
    with Cons.prems show ?thesis by (simp split: if_splits)
  next
    case False
    have "findIndex p ys = int (length ys) - 1"
    proof (cases "p y")
      case True
      with Cons.prems False show ?thesis by simp
    next
      case py: False
      with Cons.prems show ?thesis by (simp add: Let_def split: if_splits)
    qed
    from Cons.IH [OF False this] False show ?thesis by simp
  qed
qed

lemma set_addLayerIfMissing: "set (addLayerIfMissing lid layers) = insert lid (set layers)"
  by (auto simp: addLayerIfMissing_def)

lemma toTopIfNeeded_keeps_guard: "snd acc \<Longrightarrow> snd (toTopIfNeeded lid acc)"
  by (cases acc) (simp add: toTopIfNeeded_def Let_def)

lemma toTopIfNeeded_two:
  assumes "a \<in> set layers" "b \<in> set layers" "a \<noteq> b"
  shows "snd (toTopIfNeeded b (toTopIfNeeded a (layers, guard)))"
proof (cases "findIndex (\<lambda>l. l = a) layers = int (length layers) - 1")
  case True
  from assms(1) have ne: "layers \<noteq> []" by auto
  from findIndex_last [OF ne True] have top: "last layers = a" by simp
  from assms(1) have "findIndex (\<lambda>l. l = a) layers \<noteq> - 1" by (rule findIndex_found) simp
  with True have first: "toTopIfNeeded a (layers, guard) = (layers, guard)"
    by (simp add: toTopIfNeeded_def)
  from assms(2) have found: "findIndex (\<lambda>l. l = b) layers \<noteq> - 1" by (rule findIndex_found) simp
  have "findIndex (\<lambda>l. l = b) layers \<noteq> int (length layers) - 1"
  proof
    assume "findIndex (\<lambda>l. l = b) layers = int (length layers) - 1"
    from findIndex_last [OF ne this] top assms(3) show False by simp
  qed
  with found have "toTopIfNeeded b (layers, guard) = (moveLayer b layers, True)"
    by (simp add: toTopIfNeeded_def)
  then show ?thesis by (simp add: first)
next
  case False
  from assms(1) have "findIndex (\<lambda>l. l = a) layers \<noteq> - 1" by (rule findIndex_found) simp
  with False have "snd (toTopIfNeeded a (layers, guard))"
    by (simp add: toTopIfNeeded_def)
  then show ?thesis by (rule toTopIfNeeded_keeps_guard)
qed

text \<open>
  Whatever layers the map has, \<^verbatim>\<open>_ensureDebugLayers()\<close> leaves the guard set: at most
  one of the four debug layers is the top layer. So the guard is set after
  \<^verbatim>\<open>_bind()\<close>, and a \<^verbatim>\<open>styledata\<close> event before the next animation frame does
  nothing.
\<close>

lemma ensureDebugLayers_guard: "styledataGuard (ensureDebugLayers env st)"
  by (simp add: ensureDebugLayers_def Let_def toTopIfNeeded_keeps_guard toTopIfNeeded_two
      set_addLayerIfMissing)

lemma resolveTemplates_guard: "styledataGuard (snd (resolveTemplates env st)) = styledataGuard st"
  by (simp add: resolveTemplates_def split: option.splits prod.splits)

lemma bind_guard: "styledataGuard (snd (bind env st))"
proof -
  have "styledataGuard ((ensureDebugLayers env st)\<lparr>styledataBound := True, moveendBound := True\<rparr>)"
    by (simp add: ensureDebugLayers_guard)
  then have "styledataGuard (snd (resolveTemplates env
      ((ensureDebugLayers env st)\<lparr>styledataBound := True, moveendBound := True\<rparr>)))"
    by (simp add: resolveTemplates_guard)
  then show ?thesis by (auto simp: bind_def onMoveEnd_def split: prod.splits)
qed

lemma styledata_after_bind:
  "step ops env StyleData (snd (bind env st)) =
     \<lparr>lookups = [], fetches = [], after = snd (bind env st)\<rparr>"
  using bind_guard [of env st] by (simp add: step_def onStyleData_def)

section \<open>Stopping the prefetcher\<close>

lemma resolveTemplates_timer: "debounceTimer (snd (resolveTemplates env st)) = debounceTimer st"
  by (simp add: resolveTemplates_def split: option.splits prod.splits)

lemma prefetchNow_timer: "debounceTimer (after (prefetchNow ops env st)) = debounceTimer st"
  by (simp add: prefetchNow_def Let_def resolveTemplates_timer split: prod.splits)

lemma prefetchNow_unresolved:
  "templates st = [] \<Longrightarrow> lookups (prefetchNow ops env st) = fst (resolveTemplates env st)"
  by (simp add: prefetchNow_def Let_def split: prod.splits)

text \<open>
  C10. \<^verbatim>\<open>destroy()\<close> detaches the two listeners and clears the in-flight set, the
  TileJSON cache and the template list, and leaves a pending debounce timeout pending.
  When a timeout is pending, its callback still runs one prefetch cycle on the
  destroyed prefetcher; as the template list is empty, the cycle resolves the templates
  against the map's style, and no further timeout is pending afterwards (a later
  \<^verbatim>\<open>moveend\<close> is not heard). The cycle may issue fetches: on the small map, destroyed
  right after \<^verbatim>\<open>_bind()\<close>, it looks up both descriptors and fetches three tiles.
\<close>

theorem destroy_leaves_timer:
  "debounceTimer (destroy st) = debounceTimer st \<and>
   \<not> moveendBound (destroy st) \<and> \<not> styledataBound (destroy st) \<and>
   inflight (destroy st) = {} \<and> tilejsonCache (destroy st) = Map.empty \<and>
   templates (destroy st) = [] \<and>
   after (step ops env MoveEnd (destroy st)) = destroy st \<and>
   (debounceTimer st \<longrightarrow>
      step ops env TimerFired (destroy st) =
        prefetchNow ops env ((destroy st)\<lparr>debounceTimer := False\<rparr>) \<and>
      lookups (step ops env TimerFired (destroy st)) =
        fst (resolveTemplates env ((destroy st)\<lparr>debounceTimer := False\<rparr>)) \<and>
      \<not> debounceTimer (after (step ops env TimerFired (destroy st)))) \<and>
   debounceTimer (snd (bind demo_env constructed)) \<and>
   lookups (step demo_opts demo_env TimerFired (destroy (snd (bind demo_env constructed)))) =
     [(''a'', ''a.json''), (''b'', ''b.json'')] \<and>
   fetches (step demo_opts demo_env TimerFired (destroy (snd (bind demo_env constructed)))) =
     [''1/1/0'', ''1/1/1'', ''1/0/0'']"
proof -
  have fields: "debounceTimer (destroy st) = debounceTimer st \<and>
     \<not> moveendBound (destroy st) \<and> \<not> styledataBound (destroy st) \<and>
     inflight (destroy st) = {} \<and> tilejsonCache (destroy st) = Map.empty \<and>
     templates (destroy st) = []"
    by (simp add: destroy_def)
  have move: "after (step ops env MoveEnd (destroy st)) = destroy st"
    by (simp add: step_def destroy_def)
  have fire: "step ops env TimerFired (destroy st) =
        prefetchNow ops env ((destroy st)\<lparr>debounceTimer := False\<rparr>) \<and>
      lookups (step ops env TimerFired (destroy st)) =
        fst (resolveTemplates env ((destroy st)\<lparr>debounceTimer := False\<rparr>)) \<and>
      \<not> debounceTimer (after (step ops env TimerFired (destroy st)))"
    if "debounceTimer st"
  proof -
    have s: "step ops env TimerFired (destroy st) =
        prefetchNow ops env ((destroy st)\<lparr>debounceTimer := False\<rparr>)"
      using that by (simp add: step_def destroy_def)
    have "templates ((destroy st)\<lparr>debounceTimer := False\<rparr>) = []"
      by (simp add: destroy_def)
    from prefetchNow_unresolved [OF this] s show ?thesis
      by (simp add: prefetchNow_timer)
  qed
  have demo1: "debounceTimer (snd (bind demo_env constructed))"
    by code_simp
  have demo2: "lookups (step demo_opts demo_env TimerFired (destroy (snd (bind demo_env constructed)))) =
     [(''a'', ''a.json''), (''b'', ''b.json'')]"
    by code_simp
  have demo3: "fetches (step demo_opts demo_env TimerFired (destroy (snd (bind demo_env constructed)))) =
     [''1/1/0'', ''1/1/1'', ''1/0/0'']"
    by code_simp
  from fields move fire demo1 demo2 demo3 show ?thesis by blast
qed

text \<open>
  C10 at a concrete input: the small map, destroyed while the timeout set by \<^verbatim>\<open>_bind()\<close> is pending.
\<close>

theorem destroy_leaves_timer_witness:
  "debounceTimer (snd (bind demo_env constructed)) \<and>
   step demo_opts demo_env TimerFired (destroy (snd (bind demo_env constructed))) =
     prefetchNow demo_opts demo_env ((destroy (snd (bind demo_env constructed)))\<lparr>debounceTimer := False\<rparr>) \<and>
   lookups (step demo_opts demo_env TimerFired (destroy (snd (bind demo_env constructed)))) =
     fst (resolveTemplates demo_env ((destroy (snd (bind demo_env constructed)))\<lparr>debounceTimer := False\<rparr>)) \<and>
   \<not> debounceTimer (after (step demo_opts demo_env TimerFired (destroy (snd (bind demo_env constructed)))))"
  using destroy_leaves_timer [of "snd (bind demo_env constructed)" demo_opts demo_env]
  by blast

end
